theory Spec2Isabelle
  imports Main "HOL-Library.Word" "HOL-Library.Signed_Division"
begin

unbundle bit_operations_syntax

section \<open>Go values, errors and panics\<close>

text \<open>
  The embedding follows \<^verbatim>\<open>ico.go\<close>. Go's fixed-width unsigned integers are words, so that
  \<open>+\<close> wraps as it does in Go. Go's \<^verbatim>\<open>int\<close> is taken to be 64 bits wide. In the bitmap
  decoders every \<^verbatim>\<open>int\<close> is computed from 32-bit header fields and from slice lengths, and
  is modelled by \<open>int\<close>: where both dimensions are positive the values stay inside the
  64-bit range on every path that gets past \<^verbatim>\<open>image.NewRGBA\<close>, and where one is not
  positive the loops that depend on them are empty. Where a caller supplies the \<^verbatim>\<open>int\<close>
  (the target size of \<^verbatim>\<open>GetImageBySize\<close>) the wrap-around is written out with \<open>int64\<close>.
  Go's \<^verbatim>\<open>/\<close> and \<^verbatim>\<open>%\<close> truncate towards zero: they are \<open>sdiv\<close> and \<open>smod\<close>.

  A Go function of this package ends in one of three ways: it returns a value, it returns
  an \<^verbatim>\<open>error\<close>, or it panics (an index or a slice bound out of range). The three are the
  constructors of \<open>result\<close>.
\<close>

type_synonym byte = "8 word"
type_synonym uint16 = "16 word"
type_synonym uint32 = "32 word"

datatype error =
    FileTooShort
  | ReservedNotZero
  | UnsupportedType uint16
  | NoImages
  | EntryReadFailed nat
  | InvalidOffset nat uint32
  | BeyondBoundary nat
  | ImageDecodeFailed nat error
  | BMPTooShort
  | UnsupportedBitDepth uint16
  | TruncatedRow int
  | TruncatedPixel int int
  | PaletteTruncated
  | PNGError
  | ConfigHeaderReadFailed
  | InvalidICO
  | ConfigEntriesReadFailed
  | ConfigEntryReadFailed nat

datatype 'a result = Ok 'a | Err error | Panic

definition bindR :: "'a result \<Rightarrow> ('a \<Rightarrow> 'b result) \<Rightarrow> 'b result" where
  "bindR m f = (case m of Ok a \<Rightarrow> f a | Err e \<Rightarrow> Err e | Panic \<Rightarrow> Panic)"

text \<open>A \<^verbatim>\<open>for\<close> loop over the indices \<open>is\<close> whose body may return early.\<close>

fun forM :: "'i list \<Rightarrow> ('i \<Rightarrow> 's \<Rightarrow> 's result) \<Rightarrow> 's \<Rightarrow> 's result" where
  "forM [] f s = Ok s"
| "forM (i # is) f s = bindR (f i s) (forM is f)"

fun mapM :: "('i \<Rightarrow> 'b result) \<Rightarrow> 'i list \<Rightarrow> 'b list result" where
  "mapM f [] = Ok []"
| "mapM f (i # is) = bindR (f i) (\<lambda>b. bindR (mapM f is) (\<lambda>bs. Ok (b # bs)))"

text \<open>\<^verbatim>\<open>xs[i]\<close>: a panic outside \<open>0 \<le> i < len(xs)\<close>.\<close>

definition index :: "'a list \<Rightarrow> int \<Rightarrow> 'a result" where
  "index xs i = (if 0 \<le> i \<and> i < int (length xs) then Ok (xs ! nat i) else Panic)"

text \<open>
  \<^verbatim>\<open>xs[lo:hi]\<close> for unsigned bounds: a panic unless \<open>lo \<le> hi \<le> cap(xs)\<close>. Every slice
  expression of the package has \<open>hi \<le> len(xs)\<close> by an earlier check or by default, so the
  capacity is never consulted beyond the length.
\<close>

definition slice :: "'a list \<Rightarrow> nat \<Rightarrow> nat \<Rightarrow> 'a list result" where
  "slice xs lo hi = (if lo \<le> hi \<and> hi \<le> length xs then Ok (take (hi - lo) (drop lo xs)) else Panic)"

text \<open>
  \<^verbatim>\<open>binary.Read\<close> with \<^verbatim>\<open>binary.LittleEndian\<close> on fixed-size fields; the callers
  have checked that the bytes are there.
\<close>

definition u16le :: "byte list \<Rightarrow> nat \<Rightarrow> uint16" where
  "u16le bs off = of_nat (unat (bs ! off) + 256 * unat (bs ! (off + 1)))"

definition u32le :: "byte list \<Rightarrow> nat \<Rightarrow> uint32" where
  "u32le bs off = of_nat (unat (bs ! off) + 256 * unat (bs ! (off + 1))
      + 65536 * unat (bs ! (off + 2)) + 16777216 * unat (bs ! (off + 3)))"

section \<open>The data model\<close>

record Header =
  Reserved :: uint16
  Type :: uint16
  Count :: uint16

text \<open>The entry's own \<^verbatim>\<open>Reserved\<close> byte is \<open>EntryReserved\<close> here.\<close>

record DirectoryEntry =
  Width :: byte
  Height :: byte
  ColorCount :: byte
  EntryReserved :: byte
  ColorPlanes :: uint16
  BitsPerPixel :: uint16
  Size :: uint32
  Offset :: uint32

definition GetWidth :: "DirectoryEntry \<Rightarrow> int" where
  "GetWidth e = (if Width e = 0 then 256 else uint (Width e))"

definition GetHeight :: "DirectoryEntry \<Rightarrow> int" where
  "GetHeight e = (if Height e = 0 then 256 else uint (Height e))"

subsection \<open>The standard library's \<^verbatim>\<open>image.RGBA\<close>\<close>

text \<open>
  \<^verbatim>\<open>color.NRGBA\<close> is a colour with straight alpha, \<^verbatim>\<open>color.RGBA\<close> one with premultiplied
  alpha. An \<^verbatim>\<open>image.RGBA\<close> stores \<^verbatim>\<open>color.RGBA\<close> values: its \<^verbatim>\<open>Set\<close> converts the colour
  it is given with \<^verbatim>\<open>color.RGBAModel\<close>, which for an \<^verbatim>\<open>NRGBA\<close> calls its \<^verbatim>\<open>RGBA()\<close> method
  (each channel widened to 16 bits, multiplied by the alpha and divided by \<^verbatim>\<open>0xff\<close>) and
  keeps the high byte of each 16-bit channel. The pixel buffer \<^verbatim>\<open>Pix\<close> with its stride is
  abstracted to a function from coordinates to the stored colour.
\<close>

datatype color_NRGBA = NRGBA (nR: byte) (nG: byte) (nB: byte) (nA: byte)

datatype color_RGBA = RGBA (cR: byte) (cG: byte) (cB: byte) (cA: byte)

definition premultiply :: "byte \<Rightarrow> byte \<Rightarrow> byte" where
  "premultiply c a = of_nat ((unat c * 257 * unat a div 255) div 256)"

definition rgbaModel :: "color_NRGBA \<Rightarrow> color_RGBA" where
  "rgbaModel c = RGBA (premultiply (nR c) (nA c)) (premultiply (nG c) (nA c))
     (premultiply (nB c) (nA c)) (of_nat ((unat (nA c) * 257) div 256))"

record Rectangle =
  MinX :: int
  MinY :: int
  MaxX :: int
  MaxY :: int

definition image_Rect :: "int \<Rightarrow> int \<Rightarrow> int \<Rightarrow> int \<Rightarrow> Rectangle" where
  "image_Rect x0 y0 x1 y1 =
     \<lparr>MinX = (if x0 > x1 then x1 else x0), MinY = (if y0 > y1 then y1 else y0),
      MaxX = (if x0 > x1 then x0 else x1), MaxY = (if y0 > y1 then y0 else y1)\<rparr>"

definition Dx :: "Rectangle \<Rightarrow> int" where
  "Dx r = MaxX r - MinX r"

definition Dy :: "Rectangle \<Rightarrow> int" where
  "Dy r = MaxY r - MinY r"

definition In :: "int \<Rightarrow> int \<Rightarrow> Rectangle \<Rightarrow> bool" where
  "In x y r = (MinX r \<le> x \<and> x < MaxX r \<and> MinY r \<le> y \<and> y < MaxY r)"

record image_RGBA =
  Rect :: Rectangle
  Pix :: "int \<times> int \<Rightarrow> color_RGBA"

text \<open>
  \<^verbatim>\<open>image.NewRGBA\<close> computes the length \<open>4 * Dx * Dy\<close> of the pixel buffer with
  \<^verbatim>\<open>pixelBufferLength\<close>, which panics when a factor is negative or the product overflows
  \<^verbatim>\<open>int\<close>, and allocates the buffer with \<^verbatim>\<open>make\<close>, which panics
  (\<^verbatim>\<open>makeslice: len out of range\<close>) when the length exceeds the allocation limit
  \<^verbatim>\<open>maxAlloc\<close> of the runtime, \<open>2^48\<close> bytes on 64-bit Linux. A buffer below that limit
  that the machine cannot provide ends the program; this is not modelled.
\<close>

definition maxAlloc :: int where
  "maxAlloc = 2 ^ 48"

definition NewRGBA :: "Rectangle \<Rightarrow> image_RGBA result" where
  "NewRGBA r =
     (if Dx r < 0 \<or> Dy r < 0 \<or> 4 * Dx r * Dy r > 2 ^ 63 - 1 then Panic
      else if 4 * Dx r * Dy r > maxAlloc then Panic
      else Ok \<lparr>Rect = r, Pix = (\<lambda>p. RGBA 0 0 0 0)\<rparr>)"

definition Set_RGBA :: "image_RGBA \<Rightarrow> int \<Rightarrow> int \<Rightarrow> color_NRGBA \<Rightarrow> image_RGBA" where
  "Set_RGBA img x y c =
     (if In x y (Rect img) then img\<lparr>Pix := (Pix img)((x, y) := rgbaModel c)\<rparr> else img)"

definition RGBAAt :: "image_RGBA \<Rightarrow> int \<Rightarrow> int \<Rightarrow> color_RGBA" where
  "RGBAAt img x y = (if In x y (Rect img) then Pix img (x, y) else RGBA 0 0 0 0)"

text \<open>
  A decoded image is the \<^verbatim>\<open>image.RGBA\<close> of the bitmap decoders or whatever
  \<^verbatim>\<open>png.Decode\<close> returned; the PNG decoder is a parameter \<open>png\<close> of the model.
\<close>

datatype 'p Image = BMPImage image_RGBA | PNGImage 'p

record 'p ICO =
  Header :: Header
  Entries :: "DirectoryEntry list"
  Images :: "'p Image list"

section \<open>The bitmap decoders\<close>

definition rowPadding :: "int \<Rightarrow> int" where
  "rowPadding rowSize = (4 - (rowSize smod 4)) smod 4"

subsection \<open>The AND mask\<close>

text \<open>
  The five decoders end with the same block, which differs only in \<^verbatim>\<open>andMaskOffset\<close>.
  The shift count \<^verbatim>\<open>bitIndex\<close> is between 0 and 7, as \<open>x\<close> is not negative.
\<close>

definition andTotalRowSize :: "int \<Rightarrow> int" where
  "andTotalRowSize width = (width + 7) sdiv 8 + rowPadding ((width + 7) sdiv 8)"

definition andPixel :: "byte list \<Rightarrow> int \<Rightarrow> int \<Rightarrow> int \<Rightarrow> image_RGBA \<Rightarrow> image_RGBA result" where
  "andPixel data rowOffset y x img =
     (let byteOffset = rowOffset + x sdiv 8;
          bitIndex = 7 - (x smod 8)
      in if byteOffset < int (length data)
         then bindR (index data byteOffset) (\<lambda>maskByte.
           if (drop_bit (nat bitIndex) maskByte) AND 1 = 1
           then (let currentColor = RGBAAt img x y
                 in Ok (Set_RGBA img x y
                      (NRGBA (cR currentColor) (cG currentColor) (cB currentColor) 0)))
           else Ok img)
         else Ok img)"

definition andRow :: "byte list \<Rightarrow> int \<Rightarrow> int \<Rightarrow> int \<Rightarrow> int \<Rightarrow> image_RGBA \<Rightarrow> image_RGBA result" where
  "andRow data width height andMaskOffset y img =
     (let srcY = height - 1 - y;
          rowOffset = andMaskOffset + srcY * andTotalRowSize width
      in forM [0..width - 1] (andPixel data rowOffset y) img)"

definition applyANDMask :: "byte list \<Rightarrow> int \<Rightarrow> int \<Rightarrow> int \<Rightarrow> image_RGBA \<Rightarrow> image_RGBA result" where
  "applyANDMask data width height andMaskOffset img =
     (if andMaskOffset + height * andTotalRowSize width \<le> int (length data)
      then forM [0..height - 1] (andRow data width height andMaskOffset) img
      else Ok img)"

subsection \<open>32 bits per pixel\<close>

definition xorPixel32 :: "byte list \<Rightarrow> int \<Rightarrow> int \<Rightarrow> int \<Rightarrow> image_RGBA \<Rightarrow> image_RGBA result" where
  "xorPixel32 data rowOffset y x img =
     (let pixelOffset = rowOffset + x * 4
      in if pixelOffset + 3 \<ge> int (length data) then Err (TruncatedPixel x y)
         else bindR (index data pixelOffset) (\<lambda>b.
              bindR (index data (pixelOffset + 1)) (\<lambda>g.
              bindR (index data (pixelOffset + 2)) (\<lambda>r.
              bindR (index data (pixelOffset + 3)) (\<lambda>a.
              Ok (Set_RGBA img x y (NRGBA r g b a)))))))"

definition xorRow32 :: "byte list \<Rightarrow> int \<Rightarrow> int \<Rightarrow> int \<Rightarrow> image_RGBA \<Rightarrow> image_RGBA result" where
  "xorRow32 data width height y img =
     (let xorRowSize = width * 4;
          xorTotalRowSize = xorRowSize + rowPadding xorRowSize;
          srcY = height - 1 - y;
          rowOffset = srcY * xorTotalRowSize
      in if rowOffset + xorRowSize > int (length data) then Err (TruncatedRow y)
         else forM [0..width - 1] (xorPixel32 data rowOffset y) img)"

text \<open>The function up to the end of its first loop: the XOR mask.\<close>

definition decodeXOR32 :: "byte list \<Rightarrow> int \<Rightarrow> int \<Rightarrow> image_RGBA result" where
  "decodeXOR32 data width height =
     bindR (NewRGBA (image_Rect 0 0 width height))
       (forM [0..height - 1] (xorRow32 data width height))"

definition decodeBMP32 :: "byte list \<Rightarrow> int \<Rightarrow> int \<Rightarrow> image_RGBA result" where
  "decodeBMP32 data width height =
     bindR (decodeXOR32 data width height)
       (applyANDMask data width height (height * (width * 4 + rowPadding (width * 4))))"

subsection \<open>24 bits per pixel\<close>

definition xorPixel24 :: "byte list \<Rightarrow> int \<Rightarrow> int \<Rightarrow> int \<Rightarrow> image_RGBA \<Rightarrow> image_RGBA result" where
  "xorPixel24 data rowOffset y x img =
     (let pixelOffset = rowOffset + x * 3
      in if pixelOffset + 2 \<ge> int (length data) then Err (TruncatedPixel x y)
         else bindR (index data pixelOffset) (\<lambda>b.
              bindR (index data (pixelOffset + 1)) (\<lambda>g.
              bindR (index data (pixelOffset + 2)) (\<lambda>r.
              Ok (Set_RGBA img x y (NRGBA r g b 255))))))"

definition xorRow24 :: "byte list \<Rightarrow> int \<Rightarrow> int \<Rightarrow> int \<Rightarrow> image_RGBA \<Rightarrow> image_RGBA result" where
  "xorRow24 data width height y img =
     (let xorRowSize = width * 3;
          xorTotalRowSize = xorRowSize + rowPadding xorRowSize;
          srcY = height - 1 - y;
          rowOffset = srcY * xorTotalRowSize
      in if rowOffset + xorRowSize > int (length data) then Err (TruncatedRow y)
         else forM [0..width - 1] (xorPixel24 data rowOffset y) img)"

definition decodeXOR24 :: "byte list \<Rightarrow> int \<Rightarrow> int \<Rightarrow> image_RGBA result" where
  "decodeXOR24 data width height =
     bindR (NewRGBA (image_Rect 0 0 width height))
       (forM [0..height - 1] (xorRow24 data width height))"

definition decodeBMP24 :: "byte list \<Rightarrow> int \<Rightarrow> int \<Rightarrow> image_RGBA result" where
  "decodeBMP24 data width height =
     bindR (decodeXOR24 data width height)
       (applyANDMask data width height (height * (width * 3 + rowPadding (width * 3))))"

subsection \<open>Palettes\<close>

definition readPaletteEntry :: "byte list \<Rightarrow> int \<Rightarrow> int \<Rightarrow> color_NRGBA result" where
  "readPaletteEntry data paletteOffset i =
     (let offset = paletteOffset + i * 4
      in bindR (index data offset) (\<lambda>b.
         bindR (index data (offset + 1)) (\<lambda>g.
         bindR (index data (offset + 2)) (\<lambda>r.
         Ok (NRGBA r g b 255)))))"

definition readPalette :: "byte list \<Rightarrow> int \<Rightarrow> int \<Rightarrow> color_NRGBA list result" where
  "readPalette data paletteOffset n = mapM (readPaletteEntry data paletteOffset) [0..n - 1]"

subsection \<open>8 bits per pixel\<close>

definition xorPixel8 ::
  "byte list \<Rightarrow> color_NRGBA list \<Rightarrow> int \<Rightarrow> int \<Rightarrow> int \<Rightarrow> image_RGBA \<Rightarrow> image_RGBA result" where
  "xorPixel8 data palette rowOffset y x img =
     (if rowOffset + x \<ge> int (length data) then Err (TruncatedPixel x y)
      else bindR (index data (rowOffset + x)) (\<lambda>paletteIndex.
           bindR (index palette (uint paletteIndex)) (\<lambda>c.
           Ok (Set_RGBA img x y c))))"

definition xorRow8 ::
  "byte list \<Rightarrow> color_NRGBA list \<Rightarrow> int \<Rightarrow> int \<Rightarrow> int \<Rightarrow> int \<Rightarrow> image_RGBA \<Rightarrow> image_RGBA result" where
  "xorRow8 data palette width height pixelDataOffset y img =
     (let totalRowSize = width + rowPadding width;
          srcY = height - 1 - y;
          rowOffset = pixelDataOffset + srcY * totalRowSize
      in forM [0..width - 1] (xorPixel8 data palette rowOffset y) img)"

definition decodeXOR8 :: "byte list \<Rightarrow> int \<Rightarrow> int \<Rightarrow> int \<Rightarrow> image_RGBA result" where
  "decodeXOR8 data width height headerSize =
     (let paletteOffset = headerSize
      in if paletteOffset + 1024 > int (length data) then Err PaletteTruncated
         else bindR (readPalette data paletteOffset 256) (\<lambda>palette.
              bindR (NewRGBA (image_Rect 0 0 width height))
                (forM [0..height - 1] (xorRow8 data palette width height (paletteOffset + 1024)))))"

definition decodeBMP8 :: "byte list \<Rightarrow> int \<Rightarrow> int \<Rightarrow> int \<Rightarrow> image_RGBA result" where
  "decodeBMP8 data width height headerSize =
     bindR (decodeXOR8 data width height headerSize)
       (applyANDMask data width height
          (headerSize + 1024 + height * (width + rowPadding width)))"

subsection \<open>4 bits per pixel\<close>

text \<open>The loop over \<open>x\<close> steps by 2.\<close>

definition xorPixel4 ::
  "byte list \<Rightarrow> color_NRGBA list \<Rightarrow> int \<Rightarrow> int \<Rightarrow> int \<Rightarrow> int \<Rightarrow> image_RGBA \<Rightarrow> image_RGBA result" where
  "xorPixel4 data palette width rowOffset y x img =
     (let byteOffset = rowOffset + x sdiv 2
      in if byteOffset \<ge> int (length data) then Err (TruncatedPixel x y)
         else bindR (index data byteOffset) (\<lambda>pixelByte.
              bindR (index palette (uint ((drop_bit 4 pixelByte) AND 0x0F))) (\<lambda>c1.
              let img1 = Set_RGBA img x y c1
              in if x + 1 < width
                 then bindR (index palette (uint (pixelByte AND 0x0F))) (\<lambda>c2.
                      Ok (Set_RGBA img1 (x + 1) y c2))
                 else Ok img1)))"

definition xorRow4 ::
  "byte list \<Rightarrow> color_NRGBA list \<Rightarrow> int \<Rightarrow> int \<Rightarrow> int \<Rightarrow> int \<Rightarrow> image_RGBA \<Rightarrow> image_RGBA result" where
  "xorRow4 data palette width height pixelDataOffset y img =
     (let rowSize = (width + 1) sdiv 2;
          totalRowSize = rowSize + rowPadding rowSize;
          srcY = height - 1 - y;
          rowOffset = pixelDataOffset + srcY * totalRowSize
      in forM (filter even [0..width - 1]) (xorPixel4 data palette width rowOffset y) img)"

definition decodeXOR4 :: "byte list \<Rightarrow> int \<Rightarrow> int \<Rightarrow> int \<Rightarrow> image_RGBA result" where
  "decodeXOR4 data width height headerSize =
     (let paletteOffset = headerSize
      in if paletteOffset + 64 > int (length data) then Err PaletteTruncated
         else bindR (readPalette data paletteOffset 16) (\<lambda>palette.
              bindR (NewRGBA (image_Rect 0 0 width height))
                (forM [0..height - 1] (xorRow4 data palette width height (paletteOffset + 64)))))"

definition decodeBMP4 :: "byte list \<Rightarrow> int \<Rightarrow> int \<Rightarrow> int \<Rightarrow> image_RGBA result" where
  "decodeBMP4 data width height headerSize =
     bindR (decodeXOR4 data width height headerSize)
       (applyANDMask data width height
          (headerSize + 64
             + height * ((width + 1) sdiv 2 + rowPadding ((width + 1) sdiv 2))))"

subsection \<open>1 bit per pixel\<close>

definition xorPixel1 ::
  "byte list \<Rightarrow> color_NRGBA list \<Rightarrow> int \<Rightarrow> int \<Rightarrow> int \<Rightarrow> image_RGBA \<Rightarrow> image_RGBA result" where
  "xorPixel1 data palette rowOffset y x img =
     (let byteOffset = rowOffset + x sdiv 8
      in if byteOffset \<ge> int (length data) then Err (TruncatedPixel x y)
         else bindR (index data byteOffset) (\<lambda>pixelByte.
              let bitIndex = 7 - (x smod 8)
              in bindR (index palette (uint ((drop_bit (nat bitIndex) pixelByte) AND 1))) (\<lambda>c.
                 Ok (Set_RGBA img x y c))))"

definition xorRow1 ::
  "byte list \<Rightarrow> color_NRGBA list \<Rightarrow> int \<Rightarrow> int \<Rightarrow> int \<Rightarrow> int \<Rightarrow> image_RGBA \<Rightarrow> image_RGBA result" where
  "xorRow1 data palette width height pixelDataOffset y img =
     (let rowSize = (width + 7) sdiv 8;
          totalRowSize = rowSize + rowPadding rowSize;
          srcY = height - 1 - y;
          rowOffset = pixelDataOffset + srcY * totalRowSize
      in forM [0..width - 1] (xorPixel1 data palette rowOffset y) img)"

definition decodeXOR1 :: "byte list \<Rightarrow> int \<Rightarrow> int \<Rightarrow> int \<Rightarrow> image_RGBA result" where
  "decodeXOR1 data width height headerSize =
     (let paletteOffset = headerSize
      in if paletteOffset + 8 > int (length data) then Err PaletteTruncated
         else bindR (readPalette data paletteOffset 2) (\<lambda>palette.
              bindR (NewRGBA (image_Rect 0 0 width height))
                (forM [0..height - 1] (xorRow1 data palette width height (paletteOffset + 8)))))"

definition decodeBMP1 :: "byte list \<Rightarrow> int \<Rightarrow> int \<Rightarrow> int \<Rightarrow> image_RGBA result" where
  "decodeBMP1 data width height headerSize =
     bindR (decodeXOR1 data width height headerSize)
       (applyANDMask data width height
          (headerSize + 8
             + height * ((width + 7) sdiv 8 + rowPadding ((width + 7) sdiv 8))))"

subsection \<open>The DIB header and the dispatch on the bit depth\<close>

text \<open>
  The fields are read from the first 16 bytes, which the length check has secured. The
  stored height is halved in 32 bits, truncating towards zero. The \<^verbatim>\<open>Seek\<close> on the
  reader has no effect on what follows. \<^verbatim>\<open>data[headerSize:]\<close> panics when
  \<open>headerSize\<close> exceeds the length of \<open>data\<close>.
\<close>

definition dibHeaderSize :: "byte list \<Rightarrow> uint32" where
  "dibHeaderSize data = u32le data 0"

definition dibWidth :: "byte list \<Rightarrow> int" where
  "dibWidth data = sint (u32le data 4)"

definition dibHeight :: "byte list \<Rightarrow> int" where
  "dibHeight data = sint (u32le data 8) sdiv 2"

definition dibBitsPerPixel :: "byte list \<Rightarrow> uint16" where
  "dibBitsPerPixel data = u16le data 14"

definition decodeBMP :: "byte list \<Rightarrow> DirectoryEntry \<Rightarrow> image_RGBA result" where
  "decodeBMP data entry =
     (if length data < 40 then Err BMPTooShort
      else let headerSize = dibHeaderSize data;
               width = dibWidth data;
               height = dibHeight data;
               bitsPerPixel = dibBitsPerPixel data
           in if bitsPerPixel = 32
              then bindR (slice data (unat headerSize) (length data))
                     (\<lambda>rest. decodeBMP32 rest width height)
              else if bitsPerPixel = 24
              then bindR (slice data (unat headerSize) (length data))
                     (\<lambda>rest. decodeBMP24 rest width height)
              else if bitsPerPixel = 8 then decodeBMP8 data width height (uint headerSize)
              else if bitsPerPixel = 4 then decodeBMP4 data width height (uint headerSize)
              else if bitsPerPixel = 1 then decodeBMP1 data width height (uint headerSize)
              else Err (UnsupportedBitDepth bitsPerPixel))"

definition pngSignature :: "byte list" where
  "pngSignature = [0x89, 0x50, 0x4E, 0x47, 0x0D, 0x0A, 0x1A, 0x0A]"

definition decodeImage ::
  "(byte list \<Rightarrow> 'p result) \<Rightarrow> byte list \<Rightarrow> DirectoryEntry \<Rightarrow> 'p Image result" where
  "decodeImage png data entry =
     (if length data \<ge> 8 \<and> take 8 data = pngSignature
      then bindR (png data) (\<lambda>p. Ok (PNGImage p))
      else bindR (decodeBMP data entry) (\<lambda>img. Ok (BMPImage img)))"

section \<open>Decode\<close>

definition parseHeader :: "byte list \<Rightarrow> Header" where
  "parseHeader bs = \<lparr>Reserved = u16le bs 0, Type = u16le bs 2, Count = u16le bs 4\<rparr>"

definition parseEntry :: "byte list \<Rightarrow> DirectoryEntry" where
  "parseEntry bs =
     \<lparr>Width = bs ! 0, Height = bs ! 1, ColorCount = bs ! 2, EntryReserved = bs ! 3,
      ColorPlanes = u16le bs 4, BitsPerPixel = u16le bs 6,
      Size = u32le bs 8, Offset = u32le bs 12\<rparr>"

text \<open>
  The directory loop: \<open>buf\<close> is what the reader still holds, \<open>n\<close> the number of entries
  still to read and \<open>i\<close> the loop index. \<^verbatim>\<open>binary.Read\<close> fails when fewer than 16 bytes
  are left.
\<close>

fun readEntries :: "byte list \<Rightarrow> nat \<Rightarrow> nat \<Rightarrow> DirectoryEntry list result" where
  "readEntries buf 0 i = Ok []"
| "readEntries buf (Suc n) i =
     (if length buf < 16 then Err (EntryReadFailed i)
      else bindR (readEntries (drop 16 buf) n (Suc i))
             (\<lambda>es. Ok (parseEntry (take 16 buf) # es)))"

text \<open>
  One round of the image loop, for the entry at index \<open>i\<close>: the two checks and the slice
  \<^verbatim>\<open>imageData\<close>, then the decoder.
\<close>

definition imageDataOf :: "byte list \<Rightarrow> nat \<Rightarrow> DirectoryEntry \<Rightarrow> byte list result" where
  "imageDataOf data i entry =
     (if Offset entry \<ge> of_nat (length data) then Err (InvalidOffset i (Offset entry))
      else if Offset entry + Size entry > of_nat (length data) then Err (BeyondBoundary i)
      else slice data (unat (Offset entry)) (unat (Offset entry + Size entry)))"

definition decodeEntry ::
  "(byte list \<Rightarrow> 'p result) \<Rightarrow> byte list \<Rightarrow> nat \<Rightarrow> DirectoryEntry \<Rightarrow> 'p Image result" where
  "decodeEntry png data i entry =
     bindR (imageDataOf data i entry)
       (\<lambda>imageData.
          case decodeImage png imageData entry of
            Ok img \<Rightarrow> Ok img
          | Err e \<Rightarrow> Err (ImageDecodeFailed i e)
          | Panic \<Rightarrow> Panic)"

fun decodeImages ::
  "(byte list \<Rightarrow> 'p result) \<Rightarrow> byte list \<Rightarrow> DirectoryEntry list \<Rightarrow> nat \<Rightarrow> 'p Image list result" where
  "decodeImages png data [] i = Ok []"
| "decodeImages png data (entry # es) i =
     bindR (decodeEntry png data i entry)
       (\<lambda>img. bindR (decodeImages png data es (Suc i)) (\<lambda>imgs. Ok (img # imgs)))"

text \<open>
  The reader is given as the bytes it delivers, so \<^verbatim>\<open>io.ReadAll\<close> does not fail; reading
  the 6 header bytes cannot fail after the length check.
\<close>

text \<open>The first half of \<^verbatim>\<open>Decode\<close>: the header checks and the directory loop.\<close>

definition readDirectory :: "byte list \<Rightarrow> (Header \<times> DirectoryEntry list) result" where
  "readDirectory data =
     (if length data < 6 then Err FileTooShort
      else let header = parseHeader (take 6 data)
           in if Reserved header \<noteq> 0 then Err ReservedNotZero
              else if Type header \<noteq> 1 then Err (UnsupportedType (Type header))
              else if Count header = 0 then Err NoImages
              else bindR (readEntries (drop 6 data) (unat (Count header)) 0)
                     (\<lambda>entries. Ok (header, entries)))"

definition Decode :: "(byte list \<Rightarrow> 'p result) \<Rightarrow> byte list \<Rightarrow> 'p ICO result" where
  "Decode png data =
     bindR (readDirectory data) (\<lambda>(header, entries).
     bindR (decodeImages png data entries 0) (\<lambda>images.
     Ok \<lparr>Header = header, Entries = entries, Images = images\<rparr>))"

section \<open>Choosing an image\<close>

text \<open>
  The loops run over \<^verbatim>\<open>ico.Entries\<close> with the index \<open>i\<close>; the products of two effective
  dimensions are at most \<open>65536\<close>.
\<close>

fun bestLoop :: "DirectoryEntry list \<Rightarrow> nat \<Rightarrow> nat \<times> int \<Rightarrow> nat \<times> int" where
  "bestLoop [] i best = best"
| "bestLoop (entry # es) i (bestIndex, bestSize) =
     (let sz = GetWidth entry * GetHeight entry
      in bestLoop es (Suc i) (if sz > bestSize then (i, sz) else (bestIndex, bestSize)))"

definition GetBestImage :: "'p ICO \<Rightarrow> 'p Image option result" where
  "GetBestImage ico =
     (if length (Images ico) = 0 then Ok None
      else bindR (index (Entries ico) 0) (\<lambda>e0.
           let (bestIndex, bestSize) =
                 bestLoop (Entries ico) 0 (0, GetWidth e0 * GetHeight e0)
           in bindR (index (Images ico) (int bestIndex)) (\<lambda>img. Ok (Some img))))"

text \<open>A 64-bit \<^verbatim>\<open>int\<close> keeps the low 64 bits of a result, read as two's complement.\<close>

definition int64 :: "int \<Rightarrow> int" where
  "int64 k = (k + 2 ^ 63) mod 2 ^ 64 - 2 ^ 63"

definition scoreSizeMatch :: "DirectoryEntry \<Rightarrow> int \<Rightarrow> int \<Rightarrow> int" where
  "scoreSizeMatch entry targetWidth targetHeight =
     (let widthDiff = int64 (GetWidth entry - targetWidth);
          heightDiff = int64 (GetHeight entry - targetHeight)
      in int64 (int64 (widthDiff * widthDiff) + int64 (heightDiff * heightDiff)))"

fun scoreLoop :: "int \<Rightarrow> int \<Rightarrow> DirectoryEntry list \<Rightarrow> nat \<Rightarrow> nat \<times> int \<Rightarrow> nat \<times> int" where
  "scoreLoop width height [] i best = best"
| "scoreLoop width height (entry # es) i (bestIndex, bestScore) =
     (let score = scoreSizeMatch entry width height
      in scoreLoop width height es (Suc i)
           (if score < bestScore then (i, score) else (bestIndex, bestScore)))"

definition GetImageBySize :: "'p ICO \<Rightarrow> int \<Rightarrow> int \<Rightarrow> 'p Image option result" where
  "GetImageBySize ico width height =
     (if length (Images ico) = 0 then Ok None
      else bindR (index (Entries ico) 0) (\<lambda>e0.
           let (bestIndex, bestScore) =
                 scoreLoop width height (Entries ico) 0 (0, scoreSizeMatch e0 width height)
           in bindR (index (Images ico) (int bestIndex)) (\<lambda>img. Ok (Some img))))"

section \<open>DecodeConfig\<close>

text \<open>
  The reader is the list of bytes it has yet to deliver, and every function that reads
  returns what is left of it. \<^verbatim>\<open>io.ReadFull\<close> delivers exactly \<open>n\<close> bytes or fails, having
  drained the reader. The fields of \<^verbatim>\<open>Config\<close> carry the prefix \<open>Config\<close> here.
\<close>

record Config =
  ConfigWidth :: int
  ConfigHeight :: int
  ConfigCount :: int

definition ReadFull :: "byte list \<Rightarrow> nat \<Rightarrow> byte list option \<times> byte list" where
  "ReadFull r n = (if n \<le> length r then (Some (take n r), drop n r) else (None, []))"

fun configLoop :: "byte list \<Rightarrow> nat \<Rightarrow> nat \<Rightarrow> int \<times> int \<Rightarrow> (int \<times> int) result" where
  "configLoop buf 0 i best = Ok best"
| "configLoop buf (Suc n) i (maxWidth, maxHeight) =
     (if length buf < 16 then Err (ConfigEntryReadFailed i)
      else let entry = parseEntry (take 16 buf);
               width = GetWidth entry;
               height = GetHeight entry
           in configLoop (drop 16 buf) n (Suc i)
                (if width * height > maxWidth * maxHeight then (width, height)
                 else (maxWidth, maxHeight)))"

definition DecodeConfig :: "byte list \<Rightarrow> Config result \<times> byte list" where
  "DecodeConfig r =
     (case ReadFull r 6 of
        (None, r1) \<Rightarrow> (Err ConfigHeaderReadFailed, r1)
      | (Some headerBuf, r1) \<Rightarrow>
          let header = parseHeader headerBuf
          in if Reserved header \<noteq> 0 \<or> Type header \<noteq> 1 \<or> Count header = 0
             then (Err InvalidICO, r1)
             else (case ReadFull r1 (16 * unat (Count header)) of
                     (None, r2) \<Rightarrow> (Err ConfigEntriesReadFailed, r2)
                   | (Some entryBuf, r2) \<Rightarrow>
                       (bindR (configLoop entryBuf (unat (Count header)) 0 (0, 0))
                          (\<lambda>(maxWidth, maxHeight).
                             Ok \<lparr>ConfigWidth = maxWidth, ConfigHeight = maxHeight,
                                 ConfigCount = uint (Count header)\<rparr>), r2)))"

section \<open>Notions used in the statements\<close>

text \<open>
  The bit of the AND mask that the last block of a decoder consults for the pixel \<open>(x, y)\<close>:
  bit \<open>7 - x % 8\<close> of the byte at \<^verbatim>\<open>rowOffset + x/8\<close>, rows stored bottom-up.
\<close>

definition andByteOffset :: "int \<Rightarrow> int \<Rightarrow> int \<Rightarrow> int \<Rightarrow> int \<Rightarrow> int" where
  "andByteOffset width height andMaskOffset x y =
     andMaskOffset + (height - 1 - y) * andTotalRowSize width + x sdiv 8"

definition maskBit :: "byte list \<Rightarrow> int \<Rightarrow> int \<Rightarrow> int \<Rightarrow> int \<Rightarrow> int \<Rightarrow> bool" where
  "maskBit data width height andMaskOffset x y =
     ((drop_bit (nat (7 - (x smod 8)))
         (data ! nat (andByteOffset width height andMaskOffset x y))) AND 1 = 1)"

text \<open>
  The colour that the first loop of \<^verbatim>\<open>decodeBMP32\<close> hands to \<^verbatim>\<open>img.Set\<close> for the
  pixel \<open>(x, y)\<close>: the bytes B, G, R, A at \<^verbatim>\<open>pixelOffset\<close>.
\<close>

definition xorColor32 :: "byte list \<Rightarrow> int \<Rightarrow> int \<Rightarrow> int \<Rightarrow> int \<Rightarrow> color_NRGBA" where
  "xorColor32 data width height x y =
     (let pixelOffset = (height - 1 - y) * (width * 4 + rowPadding (width * 4)) + x * 4
      in NRGBA (data ! nat (pixelOffset + 2)) (data ! nat (pixelOffset + 1))
           (data ! nat pixelOffset) (data ! nat (pixelOffset + 3)))"

text \<open>Reading a pixel of the \<open>i\<close>-th image of a decoded file back, when it is a bitmap.\<close>

definition pixelAt :: "'p ICO result \<Rightarrow> nat \<Rightarrow> int \<Rightarrow> int \<Rightarrow> color_RGBA option" where
  "pixelAt r i x y =
     (case r of
        Ok ico \<Rightarrow>
          (if i < length (Images ico)
           then (case Images ico ! i of
                   BMPImage img \<Rightarrow> Some (RGBAAt img x y)
                 | PNGImage p \<Rightarrow> None)
           else None)
      | Err e \<Rightarrow> None
      | Panic \<Rightarrow> None)"

text \<open>
  The squared Euclidean distance of an entry's effective size from a target size, in exact
  arithmetic.
\<close>

definition sqDist :: "DirectoryEntry \<Rightarrow> int \<Rightarrow> int \<Rightarrow> int" where
  "sqDist e w h = (GetWidth e - w) ^ 2 + (GetHeight e - h) ^ 2"

text \<open>
  The layout of a bitmap payload, as the decoder for its bit depth computes it. A row of the
  XOR mask has \<open>xorRowBytes\<close> bytes of pixels (\<^verbatim>\<open>xorRowSize\<close> or \<^verbatim>\<open>rowSize\<close> in the
  decoders) and is padded to \<open>xorStride\<close> bytes (\<^verbatim>\<open>xorTotalRowSize\<close> or \<^verbatim>\<open>totalRowSize\<close>).
  The rows start at \<open>xorDataStart\<close>, counted from the start of the payload: after the DIB
  header, which \<^verbatim>\<open>decodeBMP\<close> slices off for the decoders of 32 and 24 bits, and after
  the palette of 256, 16 or 2 entries of 4 bytes, which the decoders of 8, 4 and 1 bits skip
  (\<^verbatim>\<open>pixelDataOffset\<close>). The rows of the AND mask start at \<open>andMaskStart\<close>
  (\<^verbatim>\<open>andMaskOffset\<close>), after \<open>height\<close> rows of the XOR mask.
\<close>

definition supportedDepth :: "uint16 \<Rightarrow> bool" where
  "supportedDepth bpp = (bpp = 32 \<or> bpp = 24 \<or> bpp = 8 \<or> bpp = 4 \<or> bpp = 1)"

definition xorRowBytes :: "uint16 \<Rightarrow> int \<Rightarrow> int" where
  "xorRowBytes bpp width =
     (if bpp = 32 then width * 4
      else if bpp = 24 then width * 3
      else if bpp = 8 then width
      else if bpp = 4 then (width + 1) sdiv 2
      else (width + 7) sdiv 8)"

definition xorStride :: "uint16 \<Rightarrow> int \<Rightarrow> int" where
  "xorStride bpp width = xorRowBytes bpp width + rowPadding (xorRowBytes bpp width)"

definition paletteBytes :: "uint16 \<Rightarrow> int" where
  "paletteBytes bpp = (if bpp = 8 then 1024 else if bpp = 4 then 64 else if bpp = 1 then 8 else 0)"

definition xorDataStart :: "byte list \<Rightarrow> int" where
  "xorDataStart data = uint (dibHeaderSize data) + paletteBytes (dibBitsPerPixel data)"

definition andMaskStart :: "byte list \<Rightarrow> int" where
  "andMaskStart data =
     xorDataStart data + dibHeight data * xorStride (dibBitsPerPixel data) (dibWidth data)"

text \<open>
  The offset in the payload of the last byte that the XOR loop reads for the pixel
  \<open>(x, y)\<close>: \<^verbatim>\<open>pixelOffset+3\<close> at 32 bits, \<^verbatim>\<open>pixelOffset+2\<close> at 24 bits,
  \<^verbatim>\<open>rowOffset+x\<close> at 8 bits and \<^verbatim>\<open>byteOffset\<close> at 4 bits and at 1 bit, rows stored
  bottom-up. It is the offset that the loop compares with the length of the data.
\<close>

definition xorByteOffset :: "byte list \<Rightarrow> int \<Rightarrow> int \<Rightarrow> int" where
  "xorByteOffset data x y =
     (let bpp = dibBitsPerPixel data;
          srcY = dibHeight data - 1 - y;
          rowOffset = xorDataStart data + srcY * xorStride bpp (dibWidth data)
      in if bpp = 32 then rowOffset + x * 4 + 3
         else if bpp = 24 then rowOffset + x * 3 + 2
         else if bpp = 8 then rowOffset + x
         else if bpp = 4 then rowOffset + x sdiv 2
         else rowOffset + x sdiv 8)"

text \<open>
  The pixel \<open>(x, y)\<close> of the bitmap \<open>data\<close> lies beyond the data: the last byte that the XOR
  loop reads for it is not inside the payload.
\<close>

definition xorPixelBeyond :: "byte list \<Rightarrow> int \<Rightarrow> int \<Rightarrow> bool" where
  "xorPixelBeyond data x y =
     (40 \<le> length data \<and> supportedDepth (dibBitsPerPixel data)
      \<and> 0 \<le> x \<and> x < dibWidth data \<and> 0 \<le> y \<and> y < dibHeight data
      \<and> int (length data) \<le> xorByteOffset data x y)"

text \<open>
  The XOR mask is complete: the row that is stored last, that of \<open>y = 0\<close>, ends inside the
  payload.
\<close>

definition xorDataComplete :: "byte list \<Rightarrow> bool" where
  "xorDataComplete data =
     (xorDataStart data
        + (dibHeight data - 1) * xorStride (dibBitsPerPixel data) (dibWidth data)
        + xorRowBytes (dibBitsPerPixel data) (dibWidth data) \<le> int (length data))"

text \<open>
  The condition under which the last block of a decoder applies the AND mask: its
  \<open>height\<close> rows of \<^verbatim>\<open>andTotalRowSize\<close> bytes end inside the payload.
\<close>

definition andMaskApplied :: "byte list \<Rightarrow> bool" where
  "andMaskApplied data =
     (andMaskStart data + dibHeight data * andTotalRowSize (dibWidth data) \<le> int (length data))"

text \<open>The bit of the AND mask for the pixel \<open>(x, y)\<close> of the bitmap \<open>data\<close>.\<close>

definition andMaskBit :: "byte list \<Rightarrow> int \<Rightarrow> int \<Rightarrow> bool" where
  "andMaskBit data x y = maskBit data (dibWidth data) (dibHeight data) (andMaskStart data) x y"

text \<open>
  The alpha that the XOR loop hands to \<^verbatim>\<open>img.Set\<close> for the pixel \<open>(x, y)\<close>: the fourth
  byte of the pixel at 32 bits, and 255 otherwise (\<^verbatim>\<open>color.NRGBA{r, g, b, 255}\<close> at 24
  bits, \<^verbatim>\<open>A: 255\<close> in every palette entry).
\<close>

definition xorAlpha :: "byte list \<Rightarrow> int \<Rightarrow> int \<Rightarrow> byte" where
  "xorAlpha data x y =
     (if dibBitsPerPixel data = 32 then data ! nat (xorByteOffset data x y) else 255)"

text \<open>
  The effective dimension of a stored byte, as \<^verbatim>\<open>GetWidth\<close> and \<^verbatim>\<open>GetHeight\<close> compute
  it.
\<close>

definition effectiveDim :: "byte \<Rightarrow> int" where
  "effectiveDim b = (if b = 0 then 256 else uint b)"

text \<open>
  The product of the effective width and height of the \<open>i\<close>-th entry of a directory given
  as bytes: the entry's first two bytes are its stored width and height.
\<close>

definition entryArea :: "byte list \<Rightarrow> nat \<Rightarrow> int" where
  "entryArea directory i =
     effectiveDim (directory ! (16 * i)) * effectiveDim (directory ! (16 * i + 1))"

section \<open>Inputs\<close>

text \<open>
  \<^verbatim>\<open>createMinimalICO\<close> of \<^verbatim>\<open>ico_test.go\<close>: one 1x1 entry of 32 bits per pixel, a 40-byte
  DIB header and one red pixel. \<open>minimalBMP\<close> is its payload, with the header size, the
  bit depth and the pixel bytes left open.
\<close>

definition minimalBMP :: "byte \<Rightarrow> byte \<Rightarrow> byte list \<Rightarrow> byte list" where
  "minimalBMP headerSize bpp pixels =
     [headerSize, 0, 0, 0,  1, 0, 0, 0,  2, 0, 0, 0,  1, 0,  bpp, 0,
      0, 0, 0, 0,  4, 0, 0, 0,  0, 0, 0, 0,  0, 0, 0, 0,  0, 0, 0, 0,  0, 0, 0, 0] @ pixels"

definition minimalDirectory :: "byte list \<Rightarrow> byte list" where
  "minimalDirectory sz =
     [0, 0,  1, 0,  1, 0,
      1, 1, 0, 0,  1, 0,  0x20, 0] @ sz @ [0x16, 0, 0, 0]"

definition createMinimalICO :: "byte list" where
  "createMinimalICO =
     minimalDirectory [0x2C, 0, 0, 0] @ minimalBMP 0x28 0x20 [0x00, 0x00, 0xFF, 0xFF]"

text \<open>The same file with the DIB header size 45, one more than the 44 bytes of the payload.\<close>

definition oversizedHeaderICO :: "byte list" where
  "oversizedHeaderICO =
     minimalDirectory [0x2C, 0, 0, 0] @ minimalBMP 0x2D 0x20 [0x00, 0x00, 0xFF, 0xFF]"

text \<open>
  A 23-byte file: the header, one entry with offset 22 and size \<open>0xFFFFFFFF\<close>, and one
  byte of payload.
\<close>

definition wrappingSizeICO :: "byte list" where
  "wrappingSizeICO = minimalDirectory [0xFF, 0xFF, 0xFF, 0xFF] @ [0]"

text \<open>The minimal file with the alpha byte of its pixel lowered to \<open>0x80\<close>.\<close>

definition halfTransparentICO :: "byte list" where
  "halfTransparentICO =
     minimalDirectory [0x2C, 0, 0, 0] @ minimalBMP 0x28 0x20 [0x00, 0x00, 0xFF, 0x80]"

text \<open>A PNG decoder that rejects its input, for files without PNG entries.\<close>

definition rejectPNG :: "byte list \<Rightarrow> unit result" where
  "rejectPNG data = Err PNGError"

text \<open>
  The pixel data of a 2x2 image of 32 bits per pixel: two XOR rows, bottom row first, then
  two AND rows of 4 bytes each, whose set bits are those of the pixels \<open>(1, 1)\<close> and
  \<open>(0, 0)\<close>.
\<close>

definition maskedPixels :: "byte list" where
  "maskedPixels =
     [1, 2, 3, 0x80,  4, 5, 6, 0xFF,
      7, 8, 9, 0x40,  10, 11, 12, 0xC0,
      0x40, 0, 0, 0,
      0x80, 0, 0, 0]"

text \<open>
  Decoded files for the selection functions, with numbered stand-ins for the images: an
  entry of the given stored size, as \<^verbatim>\<open>DirectoryEntry{Width: w, Height: h}\<close> in
  \<^verbatim>\<open>ico_test.go\<close>.
\<close>

definition entryOfSize :: "byte \<Rightarrow> byte \<Rightarrow> DirectoryEntry" where
  "entryOfSize w h =
     \<lparr>Width = w, Height = h, ColorCount = 0, EntryReserved = 0, ColorPlanes = 0,
      BitsPerPixel = 0, Size = 0, Offset = 0\<rparr>"

definition threeSizes :: "nat ICO" where
  "threeSizes =
     \<lparr>Header = \<lparr>Reserved = 0, Type = 1, Count = 3\<rparr>,
      Entries = [entryOfSize 16 16, entryOfSize 32 32, entryOfSize 32 32],
      Images = [PNGImage 0, PNGImage 1, PNGImage 2]\<rparr>"

definition twoWidths :: "nat ICO" where
  "twoWidths =
     \<lparr>Header = \<lparr>Reserved = 0, Type = 1, Count = 2\<rparr>,
      Entries = [entryOfSize 1 1, entryOfSize 2 1],
      Images = [PNGImage 0, PNGImage 1]\<rparr>"



text \<open>
  The payload of the minimal file with a DIB header that declares a width of 2147483647
  and a stored height of 65538, and the file that holds it.
\<close>

definition hugeBitmap :: "byte list" where
  "hugeBitmap =
     [0x28, 0, 0, 0,  0xFF, 0xFF, 0xFF, 0x7F,  0x02, 0, 0x01, 0,  1, 0,  0x20, 0,
      0, 0, 0, 0,  4, 0, 0, 0,  0, 0, 0, 0,  0, 0, 0, 0,  0, 0, 0, 0,  0, 0, 0, 0,
      0x00, 0x00, 0xFF, 0xFF]"

definition hugeBitmapICO :: "byte list" where
  "hugeBitmapICO = minimalDirectory [0x2C, 0, 0, 0] @ hugeBitmap"

text \<open>
  A 40-byte DIB header of size 40 for a bitmap whose width and stored height (twice the
  height) fit into one byte.
\<close>

definition dibHeader :: "byte \<Rightarrow> byte \<Rightarrow> byte \<Rightarrow> byte list" where
  "dibHeader width storedHeight bpp =
     [0x28, 0, 0, 0,  width, 0, 0, 0,  storedHeight, 0, 0, 0,  1, 0,  bpp, 0,
      0, 0, 0, 0,  0, 0, 0, 0,  0, 0, 0, 0,  0, 0, 0, 0,  0, 0, 0, 0,  0, 0, 0, 0]"


definition bareBMP24 :: "byte list" where
  "bareBMP24 = dibHeader 1 2 24 @ [1, 2, 3, 0]"

definition bareBMP8 :: "byte list" where
  "bareBMP8 = dibHeader 2 2 8 @ replicate 1024 0 @ [0, 0, 0, 0]"

definition bareBMP4 :: "byte list" where
  "bareBMP4 = dibHeader 2 2 4 @ replicate 64 0 @ [0, 0, 0, 0]"

definition bareBMP1 :: "byte list" where
  "bareBMP1 = dibHeader 1 2 1 @ replicate 8 0 @ [0, 0, 0, 0]"

text \<open>
  Bitmaps with an AND mask: the 2x2 bitmap of \<open>maskedPixels\<close>, and the bitmaps above with
  one row of mask bits each.
\<close>

definition maskedBMP32 :: "byte list" where
  "maskedBMP32 = dibHeader 2 4 32 @ maskedPixels"

definition maskedBMP24 :: "byte list" where
  "maskedBMP24 = bareBMP24 @ [0x80, 0, 0, 0]"

definition maskedBMP8 :: "byte list" where
  "maskedBMP8 = bareBMP8 @ [0x40, 0, 0, 0]"

definition maskedBMP4 :: "byte list" where
  "maskedBMP4 = bareBMP4 @ [0x80, 0, 0, 0]"

definition maskedBMP1 :: "byte list" where
  "maskedBMP1 = bareBMP1 @ [0x80, 0, 0, 0]"

text \<open>
  A directory of three entries with the stored sizes 16x16, 0x0 (which stands for 256x256)
  and 32x32.
\<close>

definition threeEntries :: "byte list" where
  "threeEntries =
     [16, 16, 0, 0,  1, 0,  32, 0,  0, 0, 0, 0,  0, 0, 0, 0,
      0, 0, 0, 0,  1, 0,  32, 0,  0, 0, 0, 0,  0, 0, 0, 0,
      32, 32, 0, 0,  1, 0,  32, 0,  0, 0, 0, 0,  0, 0, 0, 0]"

section \<open>Evaluation\<close>

lemmas reader_defs = u16le_def u32le_def parseHeader_def parseEntry_def

lemma upto_0_1: "[0..1] = [0, 1]"
  by (simp add: upto.simps)

lemmas go_defs = Let_def bindR_def index_def slice_def signed_divide_int_def signed_modulo_int_def
  upto_0_1

lemmas input_defs = minimalBMP_def minimalDirectory_def

lemmas image_defs = NewRGBA_def maxAlloc_def image_Rect_def Dx_def Dy_def Set_RGBA_def RGBAAt_def In_def
  rgbaModel_def premultiply_def

lemmas dib_defs = dibHeaderSize_def dibWidth_def dibHeight_def dibBitsPerPixel_def

lemmas decode_defs = Decode_def readDirectory_def decodeEntry_def imageDataOf_def decodeImage_def
  pngSignature_def decodeBMP_def

lemmas bmp32_defs = decodeBMP32_def decodeXOR32_def xorRow32_def xorPixel32_def
  applyANDMask_def andRow_def andPixel_def andTotalRowSize_def rowPadding_def

lemmas layout_defs = xorRowBytes_def xorStride_def paletteBytes_def
  xorDataStart_def andMaskStart_def xorByteOffset_def xorDataComplete_def andMaskApplied_def
  andMaskBit_def xorAlpha_def

lemmas fixture_eval = dibHeader_def minimalBMP_def dib_defs reader_defs go_defs layout_defs supportedDepth_def
  rowPadding_def andTotalRowSize_def maskBit_def andByteOffset_def nth_append

section \<open>Basic facts\<close>

subsection \<open>Results and loops\<close>

lemma bindR_simps [simp]:
  "bindR (Ok a) f = f a" "bindR (Err e) f = Err e" "bindR Panic f = Panic"
  by (simp_all add: bindR_def)

lemma bindR_eq_Ok: "bindR m f = Ok b \<longleftrightarrow> (\<exists>a. m = Ok a \<and> f a = Ok b)"
  by (cases m) simp_all

lemma forM_preserves:
  assumes "forM xs f s = Ok t" and "P s"
    and "\<And>x s t. x \<in> set xs \<Longrightarrow> P s \<Longrightarrow> f x s = Ok t \<Longrightarrow> P t"
  shows "P t"
  using assms
proof (induction xs arbitrary: s)
  case Nil
  then show ?case by simp
next
  case (Cons x xs)
  from Cons.prems(1) obtain u where u: "f x s = Ok u" and rest: "forM xs f u = Ok t"
    by (auto simp: bindR_eq_Ok)
  have "P u" using Cons.prems(3) [of x s u] Cons.prems(2) u by simp
  moreover have "P t'" if "x' \<in> set xs" "P s'" "f x' s' = Ok t'" for x' s' t'
    using Cons.prems(3) [of x' s' t'] that by simp
  ultimately show ?case using Cons.IH [OF rest] by blast
qed

subsection \<open>The bounds of the image are kept\<close>

lemma Rect_Set_RGBA [simp]: "Rect (Set_RGBA img x y c) = Rect img"
  by (simp add: Set_RGBA_def)

lemma index_eq_Ok: "index xs i = Ok v \<longleftrightarrow> 0 \<le> i \<and> i < int (length xs) \<and> v = xs ! nat i"
  by (auto simp: index_def)

lemma andPixel_Rect: "andPixel data ro y x img = Ok t \<Longrightarrow> Rect t = Rect img"
  by (auto simp: andPixel_def Let_def bindR_eq_Ok split: if_splits)

lemma andRow_Rect: "andRow data w h off y img = Ok t \<Longrightarrow> Rect t = Rect img"
  unfolding andRow_def Let_def
  by (erule forM_preserves [where P = "\<lambda>s. Rect s = Rect img"]) (auto dest: andPixel_Rect)

lemma applyANDMask_Rect: "applyANDMask data w h off img = Ok t \<Longrightarrow> Rect t = Rect img"
  unfolding applyANDMask_def
  by (cases "off + h * andTotalRowSize w \<le> int (length data)")
     (auto elim!: forM_preserves [where P = "\<lambda>s. Rect s = Rect img"] dest: andRow_Rect)

lemma xorPixel32_Rect: "xorPixel32 data ro y x img = Ok t \<Longrightarrow> Rect t = Rect img"
  by (auto simp: xorPixel32_def Let_def bindR_eq_Ok split: if_splits)

lemma xorRow32_Rect: "xorRow32 data w h y img = Ok t \<Longrightarrow> Rect t = Rect img"
  unfolding xorRow32_def Let_def
  by (auto split: if_splits elim!: forM_preserves [where P = "\<lambda>s. Rect s = Rect img"] dest: xorPixel32_Rect)

lemma NewRGBA_Rect: "NewRGBA r = Ok img \<Longrightarrow> Rect img = r"
  by (auto simp: NewRGBA_def split: if_splits)

lemma decodeXOR32_Rect: "decodeXOR32 data w h = Ok t \<Longrightarrow> Rect t = image_Rect 0 0 w h"
  unfolding decodeXOR32_def
  by (auto simp: bindR_eq_Ok dest!: NewRGBA_Rect elim!: forM_preserves [where P = "\<lambda>s. Rect s = image_Rect 0 0 w h"] dest: xorRow32_Rect)

lemma decodeBMP32_Rect: "decodeBMP32 data w h = Ok t \<Longrightarrow> Rect t = image_Rect 0 0 w h"
  unfolding decodeBMP32_def
  by (auto simp: bindR_eq_Ok dest!: decodeXOR32_Rect applyANDMask_Rect)

subsection \<open>Rows and padding\<close>

lemma sdiv_nonneg: "0 \<le> k \<Longrightarrow> 0 < l \<Longrightarrow> k sdiv l = k div (l::int)"
  by (simp add: signed_divide_int_def sgn_if)

lemma smod_nonneg: "0 \<le> k \<Longrightarrow> 0 < l \<Longrightarrow> k smod l = k mod (l::int)"
  by (simp add: signed_modulo_int_def sgn_if)

lemma rowPadding_nonneg: "0 \<le> r \<Longrightarrow> rowPadding r = (4 - r mod 4) mod 4"
  by (simp add: rowPadding_def smod_nonneg)

lemma rowPadding_bounds: "0 \<le> r \<Longrightarrow> 0 \<le> rowPadding r \<and> rowPadding r \<le> 3"
  by (simp add: rowPadding_nonneg)

lemma rowPadding_aligned: "0 \<le> r \<Longrightarrow> r mod 4 = 0 \<Longrightarrow> rowPadding r = 0"
  by (simp add: rowPadding_nonneg)

lemma rgbaModel_transparent [simp]: "rgbaModel (NRGBA r g b 0) = RGBA 0 0 0 0"
  by (simp add: rgbaModel_def premultiply_def)

subsection \<open>What the loops write\<close>

lemma forM_paints:
  assumes "forM xs f s = Ok t" and "Rect s = R"
    and step: "\<And>x s t. x \<in> set xs \<Longrightarrow> Rect s = R \<Longrightarrow> f x s = Ok t \<Longrightarrow>
                 Rect t = R \<and> (\<forall>p. Pix t p = (if p \<in> A x then W p else Pix s p))"
  shows "Rect t = R \<and> (\<forall>p. Pix t p = (if \<exists>x\<in>set xs. p \<in> A x then W p else Pix s p))"
  using assms
proof (induction xs arbitrary: s)
  case Nil
  then show ?case by simp
next
  case (Cons x xs)
  from Cons.prems(1) obtain u where u: "f x s = Ok u" and rest: "forM xs f u = Ok t"
    by (auto simp: bindR_eq_Ok)
  have first: "Rect u = R \<and> (\<forall>p. Pix u p = (if p \<in> A x then W p else Pix s p))"
    using Cons.prems(3) [of x s u] Cons.prems(2) u by simp
  have later: "Rect t' = R \<and> (\<forall>p. Pix t' p = (if p \<in> A x' then W p else Pix s' p))"
    if "x' \<in> set xs" "Rect s' = R" "f x' s' = Ok t'" for x' s' t'
    using Cons.prems(3) [of x' s' t'] that by simp
  have "Rect t = R \<and> (\<forall>p. Pix t p = (if \<exists>x\<in>set xs. p \<in> A x then W p else Pix u p))"
    using Cons.IH [OF rest _ later] first by blast
  with first show ?case by auto
qed

lemma andPixel_paints:
  assumes "andPixel data ro y x img = Ok t"
  shows "Rect t = Rect img \<and>
    (\<forall>p. Pix t p =
      (if p \<in> {q. q = (x, y) \<and> In x y (Rect img) \<and> ro + x sdiv 8 < int (length data)
                \<and> (drop_bit (nat (7 - (x smod 8))) (data ! nat (ro + x sdiv 8))) AND 1 = 1}
       then RGBA 0 0 0 0 else Pix img p))"
  using assms
  by (auto simp: andPixel_def Let_def bindR_eq_Ok index_eq_Ok Set_RGBA_def split: if_splits)

lemma andRow_paints:
  assumes "andRow data w h off y img = Ok t"
  shows "Rect t = Rect img \<and>
    (\<forall>p. Pix t p =
      (if \<exists>x\<in>set [0..w - 1]. p = (x, y) \<and> In x y (Rect img)
            \<and> andByteOffset w h off x y < int (length data) \<and> maskBit data w h off x y
       then RGBA 0 0 0 0 else Pix img p))"
proof -
  let ?ro = "off + (h - 1 - y) * andTotalRowSize w"
  have loop: "forM [0..w - 1] (andPixel data ?ro y) img = Ok t"
    using assms by (simp add: andRow_def Let_def)
  have "Rect t = Rect img \<and>
    (\<forall>p. Pix t p = (if \<exists>x\<in>set [0..w - 1]. p \<in> {q. q = (x, y) \<and> In x y (Rect img)
         \<and> ?ro + x sdiv 8 < int (length data)
         \<and> (drop_bit (nat (7 - (x smod 8))) (data ! nat (?ro + x sdiv 8))) AND 1 = 1}
       then RGBA 0 0 0 0 else Pix img p))"
    by (rule forM_paints [OF loop refl]) (use andPixel_paints in fastforce)
  then show ?thesis by (simp add: maskBit_def andByteOffset_def)
qed

lemma applyANDMask_paints:
  assumes "applyANDMask data w h off img = Ok t"
  shows "Rect t = Rect img \<and>
    (\<forall>x y. Pix t (x, y) =
      (if off + h * andTotalRowSize w \<le> int (length data)
          \<and> 0 \<le> x \<and> x < w \<and> 0 \<le> y \<and> y < h \<and> In x y (Rect img)
          \<and> andByteOffset w h off x y < int (length data) \<and> maskBit data w h off x y
       then RGBA 0 0 0 0 else Pix img (x, y)))"
proof (cases "off + h * andTotalRowSize w \<le> int (length data)")
  case False
  then show ?thesis using assms by (simp add: applyANDMask_def)
next
  case True
  then have loop: "forM [0..h - 1] (andRow data w h off) img = Ok t"
    using assms by (simp add: applyANDMask_def)
  have "Rect t = Rect img \<and>
    (\<forall>p. Pix t p = (if \<exists>y\<in>set [0..h - 1]. p \<in> {q. \<exists>x\<in>set [0..w - 1]. q = (x, y) \<and> In x y (Rect img)
            \<and> andByteOffset w h off x y < int (length data) \<and> maskBit data w h off x y}
       then RGBA 0 0 0 0 else Pix img p))"
    by (rule forM_paints [OF loop refl]) (use andRow_paints in fastforce)
  with True show ?thesis by auto
qed

subsection \<open>The AND mask stays inside the data\<close>

lemma andTotalRowSize_gt: "0 \<le> x \<Longrightarrow> x < w \<Longrightarrow> x sdiv 8 < andTotalRowSize w"
proof -
  assume x: "0 \<le> x" "x < w"
  then have "0 \<le> (w + 7) div 8" by simp
  then have "0 \<le> rowPadding ((w + 7) div 8)" using rowPadding_bounds by blast
  moreover have "x div 8 < (w + 7) div 8" using x by linarith
  ultimately show ?thesis using x by (simp add: andTotalRowSize_def sdiv_nonneg)
qed

lemma andByteOffset_in_range:
  assumes fits: "off + h * andTotalRowSize w \<le> len"
    and x: "0 \<le> x" "x < w" and y: "0 \<le> y" "y < h"
  shows "andByteOffset w h off x y < len"
proof -
  let ?T = "andTotalRowSize w"
  have T: "x sdiv 8 < ?T" using x by (rule andTotalRowSize_gt)
  have "0 \<le> x sdiv 8" using x by (simp add: sdiv_nonneg)
  with T have T0: "0 \<le> ?T" by simp
  have "(h - 1 - y) * ?T \<le> (h - 1) * ?T"
    using y T0 by (intro mult_right_mono) simp_all
  then have "andByteOffset w h off x y < off + (h - 1) * ?T + ?T"
    using T by (simp add: andByteOffset_def)
  also have "\<dots> = off + h * ?T" by (simp add: algebra_simps)
  finally show ?thesis using fits by simp
qed

lemma In_image_Rect: "0 \<le> x \<Longrightarrow> x < w \<Longrightarrow> 0 \<le> y \<Longrightarrow> y < h \<Longrightarrow> In x y (image_Rect 0 0 w h)"
  by (simp add: In_def image_Rect_def)

subsection \<open>The AND mask ends without a panic\<close>

lemma forM_total:
  assumes "\<And>x s. x \<in> set xs \<Longrightarrow> \<exists>t. f x s = Ok t"
  shows "\<exists>t. forM xs f s = Ok t"
  using assms
proof (induction xs arbitrary: s)
  case Nil
  then show ?case by simp
next
  case (Cons x xs)
  obtain u where "f x s = Ok u" using Cons.prems [of x s] by auto
  moreover have "\<exists>t. forM xs f u = Ok t" using Cons.IH [of u] Cons.prems by simp
  ultimately show ?case by simp
qed

lemma andPixel_total:
  assumes "0 \<le> ro + x sdiv 8"
  shows "\<exists>t. andPixel data ro y x img = Ok t"
  using assms by (simp add: andPixel_def Let_def index_def)

lemma applyANDMask_total:
  assumes "0 \<le> off"
  shows "\<exists>t. applyANDMask data w h off img = Ok t"
proof (cases "off + h * andTotalRowSize w \<le> int (length data)")
  case False
  then show ?thesis by (simp add: applyANDMask_def)
next
  case True
  have row: "\<exists>t. andRow data w h off y s = Ok t" if "y \<in> set [0..h - 1]" for y s
    unfolding andRow_def Let_def
  proof (rule forM_total)
    fix x s' assume "x \<in> set [0..w - 1]"
    then have x: "0 \<le> x" "x < w" by simp_all
    then have "0 \<le> x sdiv 8" by (simp add: sdiv_nonneg)
    moreover from this have "0 \<le> andTotalRowSize w" using andTotalRowSize_gt [OF x] by simp
    moreover have "0 \<le> h - 1 - y" using that by simp
    ultimately have "0 \<le> off + (h - 1 - y) * andTotalRowSize w + x sdiv 8"
      using assms by simp
    then show "\<exists>t. andPixel data (off + (h - 1 - y) * andTotalRowSize w) y x s' = Ok t"
      by (rule andPixel_total)
  qed
  show ?thesis using True forM_total [of "[0..h - 1]" "andRow data w h off" img] row
    by (simp add: applyANDMask_def)
qed

subsection \<open>The pixels of the 32-bit decoder\<close>

lemma xorPixel32_paints:
  assumes "xorPixel32 data ((h - 1 - y) * (w * 4 + rowPadding (w * 4))) y x img = Ok t"
  shows "Rect t = Rect img \<and>
    (\<forall>p. Pix t p =
      (if p \<in> {q. q = (x, y) \<and> In x y (Rect img)}
       then rgbaModel (xorColor32 data w h (fst p) (snd p)) else Pix img p))"
  using assms
  by (auto simp: xorPixel32_def xorColor32_def Let_def bindR_eq_Ok index_eq_Ok Set_RGBA_def
      split: if_splits)

lemma xorRow32_paints:
  assumes "xorRow32 data w h y img = Ok t"
  shows "Rect t = Rect img \<and>
    (\<forall>p. Pix t p =
      (if \<exists>x\<in>set [0..w - 1]. p = (x, y) \<and> In x y (Rect img)
       then rgbaModel (xorColor32 data w h (fst p) (snd p)) else Pix img p))"
proof -
  let ?ro = "(h - 1 - y) * (w * 4 + rowPadding (w * 4))"
  have loop: "forM [0..w - 1] (xorPixel32 data ?ro y) img = Ok t"
    using assms by (simp add: xorRow32_def Let_def split: if_splits)
  have "Rect t = Rect img \<and>
    (\<forall>p. Pix t p = (if \<exists>x\<in>set [0..w - 1]. p \<in> {q. q = (x, y) \<and> In x y (Rect img)}
       then rgbaModel (xorColor32 data w h (fst p) (snd p)) else Pix img p))"
    by (rule forM_paints [OF loop refl]) (use xorPixel32_paints in fastforce)
  then show ?thesis by simp
qed

lemma decodeXOR32_paints:
  assumes "decodeXOR32 data w h = Ok t"
  shows "Rect t = image_Rect 0 0 w h \<and>
    (\<forall>x y. Pix t (x, y) =
      (if 0 \<le> x \<and> x < w \<and> 0 \<le> y \<and> y < h
       then rgbaModel (xorColor32 data w h x y) else RGBA 0 0 0 0))"
proof -
  from assms obtain img where new: "NewRGBA (image_Rect 0 0 w h) = Ok img"
    and loop: "forM [0..h - 1] (xorRow32 data w h) img = Ok t"
    by (auto simp: decodeXOR32_def bindR_eq_Ok)
  from new have img: "Rect img = image_Rect 0 0 w h" "Pix img = (\<lambda>p. RGBA 0 0 0 0)"
    by (auto simp: NewRGBA_def split: if_splits)
  have "Rect t = image_Rect 0 0 w h \<and>
    (\<forall>p. Pix t p = (if \<exists>y\<in>set [0..h - 1]. p \<in> {q. \<exists>x\<in>set [0..w - 1]. q = (x, y) \<and> In x y (image_Rect 0 0 w h)}
       then rgbaModel (xorColor32 data w h (fst p) (snd p)) else Pix img p))"
    by (rule forM_paints [OF loop img(1)]) (use xorRow32_paints in fastforce)
  then show ?thesis using img(2) by (auto simp: In_image_Rect)
qed

lemma premultiply_opaque [simp]: "premultiply c 255 = c"
proof -
  have "unat c < 256" using unsigned_less [of c, where 'a = nat] by simp
  then have "unat c * 257 * 255 div 255 div 256 = unat c" by simp
  then show ?thesis by (simp add: premultiply_def)
qed

lemma alpha_kept: "(of_nat (unat a * 257 div 256) :: byte) = a"
proof -
  have "unat a < 256" using unsigned_less [of a, where 'a = nat] by simp
  then have "unat a * 257 div 256 = unat a" by simp
  then show ?thesis by simp
qed

lemma rgbaModel_alpha [simp]: "cA (rgbaModel c) = nA c"
  by (simp add: rgbaModel_def alpha_kept)

lemma rgbaModel_opaque: "nA c = 255 \<Longrightarrow> rgbaModel c = RGBA (nR c) (nG c) (nB c) 255"
  by (simp add: rgbaModel_def)

lemma decodeBMP32_pixels:
  assumes "decodeBMP32 data width height = Ok img"
    and "0 \<le> x" "x < width" "0 \<le> y" "y < height"
  shows "RGBAAt img x y =
      (if height * (width * 4 + rowPadding (width * 4)) + height * andTotalRowSize width
            \<le> int (length data)
          \<and> maskBit data width height (height * (width * 4 + rowPadding (width * 4))) x y
       then RGBA 0 0 0 0
       else rgbaModel (xorColor32 data width height x y))"
proof -
  let ?off = "height * (width * 4 + rowPadding (width * 4))"
  from assms(1) obtain t where xor: "decodeXOR32 data width height = Ok t"
    and mask: "applyANDMask data width height ?off t = Ok img"
    by (auto simp: decodeBMP32_def bindR_eq_Ok)
  note px = decodeXOR32_paints [OF xor]
  note pm = applyANDMask_paints [OF mask]
  have inR: "In x y (Rect t)" using px assms(2-5) by (simp add: In_image_Rect)
  have "andByteOffset width height ?off x y < int (length data)"
    if "?off + height * andTotalRowSize width \<le> int (length data)"
    using andByteOffset_in_range [OF that] assms(2-5) by simp
  then show ?thesis using px pm inR assms(2-5) by (auto simp: RGBAAt_def)
qed

subsection \<open>The bounds of the images of the other decoders\<close>

lemma xorPixel24_Rect: "xorPixel24 data ro y x img = Ok t \<Longrightarrow> Rect t = Rect img"
  by (auto simp: xorPixel24_def Let_def bindR_eq_Ok split: if_splits)

lemma xorRow24_Rect: "xorRow24 data w h y img = Ok t \<Longrightarrow> Rect t = Rect img"
  unfolding xorRow24_def Let_def
  by (auto split: if_splits elim!: forM_preserves [where P = "\<lambda>s. Rect s = Rect img"]
      dest: xorPixel24_Rect)

lemma decodeXOR24_Rect: "decodeXOR24 data w h = Ok t \<Longrightarrow> Rect t = image_Rect 0 0 w h"
  unfolding decodeXOR24_def
  by (auto simp: bindR_eq_Ok dest!: NewRGBA_Rect
      elim!: forM_preserves [where P = "\<lambda>s. Rect s = image_Rect 0 0 w h"] dest: xorRow24_Rect)

lemma xorPixel8_Rect: "xorPixel8 data pal ro y x img = Ok t \<Longrightarrow> Rect t = Rect img"
  by (auto simp: xorPixel8_def Let_def bindR_eq_Ok split: if_splits)

lemma xorRow8_Rect: "xorRow8 data pal w h pdo y img = Ok t \<Longrightarrow> Rect t = Rect img"
  unfolding xorRow8_def Let_def
  by (auto elim!: forM_preserves [where P = "\<lambda>s. Rect s = Rect img"] dest: xorPixel8_Rect)

lemma decodeXOR8_Rect: "decodeXOR8 data w h hs = Ok t \<Longrightarrow> Rect t = image_Rect 0 0 w h"
  unfolding decodeXOR8_def Let_def
  by (auto simp: bindR_eq_Ok split: if_splits dest!: NewRGBA_Rect
      elim!: forM_preserves [where P = "\<lambda>s. Rect s = image_Rect 0 0 w h"] dest: xorRow8_Rect)

lemma xorPixel4_Rect: "xorPixel4 data pal w ro y x img = Ok t \<Longrightarrow> Rect t = Rect img"
  by (auto simp: xorPixel4_def Let_def bindR_eq_Ok split: if_splits)

lemma xorRow4_Rect: "xorRow4 data pal w h pdo y img = Ok t \<Longrightarrow> Rect t = Rect img"
  unfolding xorRow4_def Let_def
  by (auto elim!: forM_preserves [where P = "\<lambda>s. Rect s = Rect img"] dest: xorPixel4_Rect)

lemma decodeXOR4_Rect: "decodeXOR4 data w h hs = Ok t \<Longrightarrow> Rect t = image_Rect 0 0 w h"
  unfolding decodeXOR4_def Let_def
  by (auto simp: bindR_eq_Ok split: if_splits dest!: NewRGBA_Rect
      elim!: forM_preserves [where P = "\<lambda>s. Rect s = image_Rect 0 0 w h"] dest: xorRow4_Rect)

lemma xorPixel1_Rect: "xorPixel1 data pal ro y x img = Ok t \<Longrightarrow> Rect t = Rect img"
  by (auto simp: xorPixel1_def Let_def bindR_eq_Ok split: if_splits)

lemma xorRow1_Rect: "xorRow1 data pal w h pdo y img = Ok t \<Longrightarrow> Rect t = Rect img"
  unfolding xorRow1_def Let_def
  by (auto elim!: forM_preserves [where P = "\<lambda>s. Rect s = Rect img"] dest: xorPixel1_Rect)

lemma decodeXOR1_Rect: "decodeXOR1 data w h hs = Ok t \<Longrightarrow> Rect t = image_Rect 0 0 w h"
  unfolding decodeXOR1_def Let_def
  by (auto simp: bindR_eq_Ok split: if_splits dest!: NewRGBA_Rect
      elim!: forM_preserves [where P = "\<lambda>s. Rect s = image_Rect 0 0 w h"] dest: xorRow1_Rect)

lemma decodeBMP24_Rect: "decodeBMP24 data w h = Ok t \<Longrightarrow> Rect t = image_Rect 0 0 w h"
  unfolding decodeBMP24_def
  by (auto simp: bindR_eq_Ok dest!: decodeXOR24_Rect applyANDMask_Rect)

lemma decodeBMP8_Rect: "decodeBMP8 data w h hs = Ok t \<Longrightarrow> Rect t = image_Rect 0 0 w h"
  unfolding decodeBMP8_def
  by (auto simp: bindR_eq_Ok dest!: decodeXOR8_Rect applyANDMask_Rect)

lemma decodeBMP4_Rect: "decodeBMP4 data w h hs = Ok t \<Longrightarrow> Rect t = image_Rect 0 0 w h"
  unfolding decodeBMP4_def
  by (auto simp: bindR_eq_Ok dest!: decodeXOR4_Rect applyANDMask_Rect)

lemma decodeBMP1_Rect: "decodeBMP1 data w h hs = Ok t \<Longrightarrow> Rect t = image_Rect 0 0 w h"
  unfolding decodeBMP1_def
  by (auto simp: bindR_eq_Ok dest!: decodeXOR1_Rect applyANDMask_Rect)

lemma decodeBMP_Rect:
  assumes "decodeBMP data entry = Ok img"
  shows "Rect img = image_Rect 0 0 (dibWidth data) (dibHeight data)"
  using assms
  by (auto simp: decodeBMP_def Let_def bindR_eq_Ok split: if_splits
      dest: decodeBMP32_Rect decodeBMP24_Rect decodeBMP8_Rect decodeBMP4_Rect decodeBMP1_Rect)

subsection \<open>The loop of GetBestImage\<close>

lemma bestLoop_spec:
  "bestLoop es i (bi, bs) = (bi', bs') \<Longrightarrow>
   (bi' = bi \<and> bs' = bs \<and> (\<forall>e\<in>set es. GetWidth e * GetHeight e \<le> bs)) \<or>
   (\<exists>k<length es. bi' = i + k \<and> bs' = GetWidth (es ! k) * GetHeight (es ! k) \<and> bs < bs'
      \<and> (\<forall>j<length es. GetWidth (es ! j) * GetHeight (es ! j) \<le> bs')
      \<and> (\<forall>j<k. GetWidth (es ! j) * GetHeight (es ! j) < bs'))"
proof (induction es arbitrary: i bi bs)
  case Nil
  then show ?case by simp
next
  case (Cons e es)
  let ?a = "\<lambda>e. GetWidth e * GetHeight e"
  show ?case
  proof (cases "?a e > bs")
    case True
    with Cons.prems have run: "bestLoop es (Suc i) (i, ?a e) = (bi', bs')"
      by (simp add: Let_def)
    from Cons.IH [OF run] show ?thesis
    proof
      assume "bi' = i \<and> bs' = ?a e \<and> (\<forall>e'\<in>set es. ?a e' \<le> ?a e)"
      then have "0 < length (e # es) \<and> bi' = i + 0 \<and> bs' = ?a ((e # es) ! 0) \<and> bs < bs'
        \<and> (\<forall>j<length (e # es). ?a ((e # es) ! j) \<le> bs') \<and> (\<forall>j<0. ?a ((e # es) ! j) < bs')"
        using True by (auto simp: nth_Cons split: nat.splits)
      then show ?thesis by blast
    next
      assume "\<exists>k<length es. bi' = Suc i + k \<and> bs' = ?a (es ! k) \<and> ?a e < bs'
        \<and> (\<forall>j<length es. ?a (es ! j) \<le> bs') \<and> (\<forall>j<k. ?a (es ! j) < bs')"
      then obtain k where k: "k < length es" "bi' = Suc i + k" "bs' = ?a (es ! k)" "?a e < bs'"
        "\<forall>j<length es. ?a (es ! j) \<le> bs'" "\<forall>j<k. ?a (es ! j) < bs'" by blast
      have "Suc k < length (e # es) \<and> bi' = i + Suc k \<and> bs' = ?a ((e # es) ! Suc k) \<and> bs < bs'
        \<and> (\<forall>j<length (e # es). ?a ((e # es) ! j) \<le> bs') \<and> (\<forall>j<Suc k. ?a ((e # es) ! j) < bs')"
        using k True by (auto simp: nth_Cons split: nat.splits)
      then show ?thesis by blast
    qed
  next
    case False
    with Cons.prems have run: "bestLoop es (Suc i) (bi, bs) = (bi', bs')"
      by (simp add: Let_def)
    from Cons.IH [OF run] show ?thesis
    proof
      assume "bi' = bi \<and> bs' = bs \<and> (\<forall>e'\<in>set es. ?a e' \<le> bs)"
      then show ?thesis using False by auto
    next
      assume "\<exists>k<length es. bi' = Suc i + k \<and> bs' = ?a (es ! k) \<and> bs < bs'
        \<and> (\<forall>j<length es. ?a (es ! j) \<le> bs') \<and> (\<forall>j<k. ?a (es ! j) < bs')"
      then obtain k where k: "k < length es" "bi' = Suc i + k" "bs' = ?a (es ! k)" "bs < bs'"
        "\<forall>j<length es. ?a (es ! j) \<le> bs'" "\<forall>j<k. ?a (es ! j) < bs'" by blast
      have "Suc k < length (e # es) \<and> bi' = i + Suc k \<and> bs' = ?a ((e # es) ! Suc k) \<and> bs < bs'
        \<and> (\<forall>j<length (e # es). ?a ((e # es) ! j) \<le> bs') \<and> (\<forall>j<Suc k. ?a ((e # es) ! j) < bs')"
        using k False by (auto simp: nth_Cons split: nat.splits)
      then show ?thesis by blast
    qed
  qed
qed

lemma bestLoop_first_largest:
  assumes "es \<noteq> []" and "bestLoop es 0 (0, GetWidth (es ! 0) * GetHeight (es ! 0)) = (bi, bs)"
  shows "bi < length es
    \<and> (\<forall>j<length es. GetWidth (es ! j) * GetHeight (es ! j) \<le> GetWidth (es ! bi) * GetHeight (es ! bi))
    \<and> (\<forall>j<bi. GetWidth (es ! j) * GetHeight (es ! j) < GetWidth (es ! bi) * GetHeight (es ! bi))"
  using bestLoop_spec [OF assms(2)] assms(1)
  by (auto simp: all_set_conv_all_nth)


subsection \<open>What Decode returns\<close>

lemma readEntries_length: "readEntries buf n i = Ok es \<Longrightarrow> length es = n"
  by (induction n arbitrary: buf i es) (auto simp: bindR_eq_Ok split: if_splits)

lemma decodeImages_length: "decodeImages png data es i = Ok imgs \<Longrightarrow> length imgs = length es"
  by (induction es arbitrary: i imgs) (auto simp: bindR_eq_Ok)

lemma readDirectory_Ok:
  assumes "readDirectory data = Ok (header, es)"
  shows "6 \<le> length data \<and> header = parseHeader (take 6 data) \<and> Reserved header = 0
    \<and> Type header = 1 \<and> Count header \<noteq> 0
    \<and> readEntries (drop 6 data) (unat (Count header)) 0 = Ok es"
  using assms by (auto simp: readDirectory_def Let_def bindR_eq_Ok split: if_splits)

lemma Decode_Ok:
  assumes "Decode png data = Ok ico"
  shows "readDirectory data = Ok (Header ico, Entries ico)
    \<and> decodeImages png data (Entries ico) 0 = Ok (Images ico)"
  using assms by (auto simp: Decode_def bindR_eq_Ok)

lemma Decode_lengths:
  assumes "Decode png data = Ok ico"
  shows "length (Entries ico) = length (Images ico) \<and> Entries ico \<noteq> []"
proof -
  note d = Decode_Ok [OF assms]
  from d have "length (Images ico) = length (Entries ico)" using decodeImages_length by blast
  moreover from d have "length (Entries ico) = unat (Count (Header ico))"
    using readDirectory_Ok readEntries_length by blast
  moreover from d have "Count (Header ico) \<noteq> 0" using readDirectory_Ok by blast
  then have "unat (Count (Header ico)) \<noteq> 0" by (simp add: unat_eq_0)
  ultimately show ?thesis by auto
qed

lemma GetBestImage_spec:
  assumes "length (Entries ico) = length (Images ico)"
  shows "(GetBestImage ico = Ok None) = (Entries ico = [])
    \<and> (Entries ico \<noteq> [] \<longrightarrow>
        (\<exists>i<length (Entries ico). GetBestImage ico = Ok (Some (Images ico ! i))
           \<and> (\<forall>j<length (Entries ico).
                 GetWidth (Entries ico ! j) * GetHeight (Entries ico ! j)
                 \<le> GetWidth (Entries ico ! i) * GetHeight (Entries ico ! i))
           \<and> (\<forall>j<i. GetWidth (Entries ico ! j) * GetHeight (Entries ico ! j)
                 < GetWidth (Entries ico ! i) * GetHeight (Entries ico ! i))))"
proof (cases "Entries ico = []")
  case True
  then show ?thesis using assms by (simp add: GetBestImage_def)
next
  case False
  let ?es = "Entries ico"
  obtain bi bs where run: "bestLoop ?es 0 (0, GetWidth (?es ! 0) * GetHeight (?es ! 0)) = (bi, bs)"
    by (cases "bestLoop ?es 0 (0, GetWidth (?es ! 0) * GetHeight (?es ! 0))") simp
  note best = bestLoop_first_largest [OF False run]
  have "Images ico \<noteq> []" using False assms by auto
  then have "GetBestImage ico = Ok (Some (Images ico ! bi))"
    using False assms run best by (simp add: GetBestImage_def index_def)
  with best False show ?thesis by auto
qed

subsection \<open>The loop of GetImageBySize\<close>

lemma scoreLoop_spec:
  "scoreLoop w h es i (bi, bs) = (bi', bs') \<Longrightarrow>
   (bi' = bi \<and> bs' = bs \<and> (\<forall>e\<in>set es. bs \<le> scoreSizeMatch e w h)) \<or>
   (\<exists>k<length es. bi' = i + k \<and> bs' = scoreSizeMatch (es ! k) w h \<and> bs' < bs
      \<and> (\<forall>j<length es. bs' \<le> scoreSizeMatch (es ! j) w h)
      \<and> (\<forall>j<k. bs' < scoreSizeMatch (es ! j) w h))"
proof (induction es arbitrary: i bi bs)
  case Nil
  then show ?case by simp
next
  case (Cons e es)
  let ?a = "\<lambda>e. scoreSizeMatch e w h"
  show ?case
  proof (cases "?a e < bs")
    case True
    with Cons.prems have run: "scoreLoop w h es (Suc i) (i, ?a e) = (bi', bs')"
      by (simp add: Let_def)
    from Cons.IH [OF run] show ?thesis
    proof
      assume "bi' = i \<and> bs' = ?a e \<and> (\<forall>e'\<in>set es. ?a e \<le> ?a e')"
      then have "0 < length (e # es) \<and> bi' = i + 0 \<and> bs' = ?a ((e # es) ! 0) \<and> bs' < bs
        \<and> (\<forall>j<length (e # es). bs' \<le> ?a ((e # es) ! j)) \<and> (\<forall>j<0. bs' < ?a ((e # es) ! j))"
        using True by (auto simp: nth_Cons split: nat.splits)
      then show ?thesis by blast
    next
      assume "\<exists>k<length es. bi' = Suc i + k \<and> bs' = ?a (es ! k) \<and> bs' < ?a e
        \<and> (\<forall>j<length es. bs' \<le> ?a (es ! j)) \<and> (\<forall>j<k. bs' < ?a (es ! j))"
      then obtain k where k: "k < length es" "bi' = Suc i + k" "bs' = ?a (es ! k)" "bs' < ?a e"
        "\<forall>j<length es. bs' \<le> ?a (es ! j)" "\<forall>j<k. bs' < ?a (es ! j)" by blast
      have "Suc k < length (e # es) \<and> bi' = i + Suc k \<and> bs' = ?a ((e # es) ! Suc k) \<and> bs' < bs
        \<and> (\<forall>j<length (e # es). bs' \<le> ?a ((e # es) ! j)) \<and> (\<forall>j<Suc k. bs' < ?a ((e # es) ! j))"
        using k True by (auto simp: nth_Cons split: nat.splits)
      then show ?thesis by blast
    qed
  next
    case False
    with Cons.prems have run: "scoreLoop w h es (Suc i) (bi, bs) = (bi', bs')"
      by (simp add: Let_def)
    from Cons.IH [OF run] show ?thesis
    proof
      assume "bi' = bi \<and> bs' = bs \<and> (\<forall>e'\<in>set es. bs \<le> ?a e')"
      then show ?thesis using False by auto
    next
      assume "\<exists>k<length es. bi' = Suc i + k \<and> bs' = ?a (es ! k) \<and> bs' < bs
        \<and> (\<forall>j<length es. bs' \<le> ?a (es ! j)) \<and> (\<forall>j<k. bs' < ?a (es ! j))"
      then obtain k where k: "k < length es" "bi' = Suc i + k" "bs' = ?a (es ! k)" "bs' < bs"
        "\<forall>j<length es. bs' \<le> ?a (es ! j)" "\<forall>j<k. bs' < ?a (es ! j)" by blast
      have "Suc k < length (e # es) \<and> bi' = i + Suc k \<and> bs' = ?a ((e # es) ! Suc k) \<and> bs' < bs
        \<and> (\<forall>j<length (e # es). bs' \<le> ?a ((e # es) ! j)) \<and> (\<forall>j<Suc k. bs' < ?a ((e # es) ! j))"
        using k False by (auto simp: nth_Cons split: nat.splits)
      then show ?thesis by blast
    qed
  qed
qed

lemma scoreLoop_first_smallest:
  assumes "es \<noteq> []" and "scoreLoop w h es 0 (0, scoreSizeMatch (es ! 0) w h) = (bi, bs)"
  shows "bi < length es
    \<and> (\<forall>j<length es. scoreSizeMatch (es ! bi) w h \<le> scoreSizeMatch (es ! j) w h)
    \<and> (\<forall>j<bi. scoreSizeMatch (es ! bi) w h < scoreSizeMatch (es ! j) w h)"
  using scoreLoop_spec [OF assms(2)] assms(1)
  by (auto simp: all_set_conv_all_nth)

lemma int64_id: "- (2 ^ 63) \<le> k \<Longrightarrow> k < 2 ^ 63 \<Longrightarrow> int64 k = k"
  by (simp add: int64_def)

lemma abs_le_square: "\<bar>k\<bar> \<le> k * (k::int)"
proof (cases "k = 0")
  case True
  then show ?thesis by simp
next
  case False
  then have "1 \<le> \<bar>k\<bar>" by simp
  then have "\<bar>k\<bar> * 1 \<le> \<bar>k\<bar> * \<bar>k\<bar>" by (intro mult_left_mono) simp_all
  then show ?thesis by simp
qed

lemma scoreSizeMatch_exact:
  assumes "sqDist e w h < 2 ^ 63"
  shows "scoreSizeMatch e w h = sqDist e w h"
proof -
  let ?wd = "GetWidth e - w" and ?hd = "GetHeight e - h"
  have sq: "?wd * ?wd + ?hd * ?hd < 2 ^ 63"
    using assms by (simp add: sqDist_def power2_eq_square)
  have nonneg: "0 \<le> ?wd * ?wd" "0 \<le> ?hd * ?hd" by simp_all
  have w2: "?wd * ?wd < 2 ^ 63" and h2: "?hd * ?hd < 2 ^ 63" using sq nonneg by linarith+
  have "\<bar>?wd\<bar> < 2 ^ 63" using abs_le_square [of ?wd] w2 by linarith
  then have wd: "int64 ?wd = ?wd" by (intro int64_id) linarith+
  have "\<bar>?hd\<bar> < 2 ^ 63" using abs_le_square [of ?hd] h2 by linarith
  then have hd: "int64 ?hd = ?hd" by (intro int64_id) linarith+
  have w2': "int64 (?wd * ?wd) = ?wd * ?wd" using w2 nonneg by (intro int64_id) linarith+
  have h2': "int64 (?hd * ?hd) = ?hd * ?hd" using h2 nonneg by (intro int64_id) linarith+
  have "int64 (?wd * ?wd + ?hd * ?hd) = ?wd * ?wd + ?hd * ?hd"
    using sq nonneg by (intro int64_id) linarith+
  then show ?thesis
    by (simp add: scoreSizeMatch_def Let_def wd hd w2' h2' sqDist_def power2_eq_square)
qed

lemma GetImageBySize_some:
  assumes "length (Entries ico) = length (Images ico)" and "Entries ico \<noteq> []"
  shows "\<exists>i<length (Entries ico). GetImageBySize ico w h = Ok (Some (Images ico ! i))"
proof -
  let ?es = "Entries ico"
  obtain bi bs where run: "scoreLoop w h ?es 0 (0, scoreSizeMatch (?es ! 0) w h) = (bi, bs)"
    by (cases "scoreLoop w h ?es 0 (0, scoreSizeMatch (?es ! 0) w h)") simp
  note best = scoreLoop_first_smallest [OF assms(2) run]
  have "Images ico \<noteq> []" using assms by auto
  then have "GetImageBySize ico w h = Ok (Some (Images ico ! bi))"
    using assms run best by (simp add: GetImageBySize_def index_def)
  with best show ?thesis by blast
qed

lemma GetImageBySize_spec:
  assumes "length (Entries ico) = length (Images ico)" and "Entries ico \<noteq> []"
    and "\<forall>e\<in>set (Entries ico). sqDist e w h < 2 ^ 63"
  shows "\<exists>i<length (Entries ico). GetImageBySize ico w h = Ok (Some (Images ico ! i))
           \<and> (\<forall>j<length (Entries ico). sqDist (Entries ico ! i) w h \<le> sqDist (Entries ico ! j) w h)
           \<and> (\<forall>j<i. sqDist (Entries ico ! i) w h < sqDist (Entries ico ! j) w h)"
proof -
  let ?es = "Entries ico"
  obtain bi bs where run: "scoreLoop w h ?es 0 (0, scoreSizeMatch (?es ! 0) w h) = (bi, bs)"
    by (cases "scoreLoop w h ?es 0 (0, scoreSizeMatch (?es ! 0) w h)") simp
  note best = scoreLoop_first_smallest [OF assms(2) run]
  have exact: "scoreSizeMatch (?es ! j) w h = sqDist (?es ! j) w h" if "j < length ?es" for j
    using assms(3) that by (simp add: scoreSizeMatch_exact)
  have "Images ico \<noteq> []" using assms(1,2) by auto
  then have "GetImageBySize ico w h = Ok (Some (Images ico ! bi))"
    using assms(1,2) run best by (simp add: GetImageBySize_def index_def)
  moreover have "\<forall>j<length ?es. sqDist (?es ! bi) w h \<le> sqDist (?es ! j) w h"
    using best exact by auto
  moreover have "\<forall>j<bi. sqDist (?es ! bi) w h < sqDist (?es ! j) w h"
    using best exact by auto
  ultimately show ?thesis using best by blast
qed

subsection \<open>The loop of DecodeConfig\<close>

lemma area_positive: "0 < GetWidth e * GetHeight e"
proof -
  have "0 < GetWidth e"
    by (simp add: GetWidth_def) (metis uint_0_iff uint_nonnegative order_le_less)
  moreover have "0 < GetHeight e"
    by (simp add: GetHeight_def) (metis uint_0_iff uint_nonnegative order_le_less)
  ultimately show ?thesis by simp
qed

lemma configLoop_spec:
  "16 * n \<le> length buf \<Longrightarrow>
   \<exists>es r. readEntries buf n i = Ok es \<and> length es = n \<and> configLoop buf n i (mw, mh) = Ok r \<and>
     ((r = (mw, mh) \<and> (\<forall>e\<in>set es. GetWidth e * GetHeight e \<le> mw * mh)) \<or>
      (\<exists>k<n. r = (GetWidth (es ! k), GetHeight (es ! k))
         \<and> mw * mh < GetWidth (es ! k) * GetHeight (es ! k)
         \<and> (\<forall>j<n. GetWidth (es ! j) * GetHeight (es ! j) \<le> GetWidth (es ! k) * GetHeight (es ! k))
         \<and> (\<forall>j<k. GetWidth (es ! j) * GetHeight (es ! j) < GetWidth (es ! k) * GetHeight (es ! k))))"
proof (induction n arbitrary: buf i mw mh)
  case 0
  then show ?case by simp
next
  case (Suc n)
  let ?e = "parseEntry (take 16 buf)"
  let ?a = "\<lambda>e. GetWidth e * GetHeight e"
  from Suc.prems have len: "\<not> length buf < 16" and rest: "16 * n \<le> length (drop 16 buf)" by simp_all
  show ?case
  proof (cases "?a ?e > mw * mh")
    case True
    from Suc.IH [OF rest, of "Suc i" "GetWidth ?e" "GetHeight ?e"]
    obtain es r where es: "readEntries (drop 16 buf) n (Suc i) = Ok es" "length es = n"
      and r: "configLoop (drop 16 buf) n (Suc i) (GetWidth ?e, GetHeight ?e) = Ok r"
      and alt: "(r = (GetWidth ?e, GetHeight ?e) \<and> (\<forall>e\<in>set es. ?a e \<le> ?a ?e)) \<or>
        (\<exists>k<n. r = (GetWidth (es ! k), GetHeight (es ! k)) \<and> ?a ?e < ?a (es ! k)
           \<and> (\<forall>j<n. ?a (es ! j) \<le> ?a (es ! k)) \<and> (\<forall>j<k. ?a (es ! j) < ?a (es ! k)))"
      by blast
    have read: "readEntries buf (Suc n) i = Ok (?e # es)" using len es by simp
    have run: "configLoop buf (Suc n) i (mw, mh) = Ok r" using len r True by (simp add: Let_def)
    from alt have "\<exists>k<Suc n. r = (GetWidth ((?e # es) ! k), GetHeight ((?e # es) ! k))
         \<and> mw * mh < ?a ((?e # es) ! k)
         \<and> (\<forall>j<Suc n. ?a ((?e # es) ! j) \<le> ?a ((?e # es) ! k))
         \<and> (\<forall>j<k. ?a ((?e # es) ! j) < ?a ((?e # es) ! k))"
    proof
      assume a: "r = (GetWidth ?e, GetHeight ?e) \<and> (\<forall>e\<in>set es. ?a e \<le> ?a ?e)"
      have "0 < Suc n \<and> r = (GetWidth ((?e # es) ! 0), GetHeight ((?e # es) ! 0))
         \<and> mw * mh < ?a ((?e # es) ! 0)
         \<and> (\<forall>j<Suc n. ?a ((?e # es) ! j) \<le> ?a ((?e # es) ! 0))
         \<and> (\<forall>j<0. ?a ((?e # es) ! j) < ?a ((?e # es) ! 0))"
        using a True es(2) by (auto simp: nth_Cons split: nat.splits)
      then show ?thesis by blast
    next
      assume "\<exists>k<n. r = (GetWidth (es ! k), GetHeight (es ! k)) \<and> ?a ?e < ?a (es ! k)
           \<and> (\<forall>j<n. ?a (es ! j) \<le> ?a (es ! k)) \<and> (\<forall>j<k. ?a (es ! j) < ?a (es ! k))"
      then obtain k where k: "k < n" "r = (GetWidth (es ! k), GetHeight (es ! k))"
        "?a ?e < ?a (es ! k)" "\<forall>j<n. ?a (es ! j) \<le> ?a (es ! k)" "\<forall>j<k. ?a (es ! j) < ?a (es ! k)"
        by blast
      have "Suc k < Suc n \<and> r = (GetWidth ((?e # es) ! Suc k), GetHeight ((?e # es) ! Suc k))
         \<and> mw * mh < ?a ((?e # es) ! Suc k)
         \<and> (\<forall>j<Suc n. ?a ((?e # es) ! j) \<le> ?a ((?e # es) ! Suc k))
         \<and> (\<forall>j<Suc k. ?a ((?e # es) ! j) < ?a ((?e # es) ! Suc k))"
        using k True by (auto simp: nth_Cons split: nat.splits)
      then show ?thesis by blast
    qed
    with read run es(2) show ?thesis by auto
  next
    case False
    from Suc.IH [OF rest, of "Suc i" mw mh]
    obtain es r where es: "readEntries (drop 16 buf) n (Suc i) = Ok es" "length es = n"
      and r: "configLoop (drop 16 buf) n (Suc i) (mw, mh) = Ok r"
      and alt: "(r = (mw, mh) \<and> (\<forall>e\<in>set es. ?a e \<le> mw * mh)) \<or>
        (\<exists>k<n. r = (GetWidth (es ! k), GetHeight (es ! k)) \<and> mw * mh < ?a (es ! k)
           \<and> (\<forall>j<n. ?a (es ! j) \<le> ?a (es ! k)) \<and> (\<forall>j<k. ?a (es ! j) < ?a (es ! k)))"
      by blast
    have read: "readEntries buf (Suc n) i = Ok (?e # es)" using len es by simp
    have run: "configLoop buf (Suc n) i (mw, mh) = Ok r" using len r False by (simp add: Let_def)
    from alt have "(r = (mw, mh) \<and> (\<forall>e\<in>set (?e # es). ?a e \<le> mw * mh)) \<or>
      (\<exists>k<Suc n. r = (GetWidth ((?e # es) ! k), GetHeight ((?e # es) ! k))
         \<and> mw * mh < ?a ((?e # es) ! k)
         \<and> (\<forall>j<Suc n. ?a ((?e # es) ! j) \<le> ?a ((?e # es) ! k))
         \<and> (\<forall>j<k. ?a ((?e # es) ! j) < ?a ((?e # es) ! k)))"
    proof
      assume "r = (mw, mh) \<and> (\<forall>e\<in>set es. ?a e \<le> mw * mh)"
      then show ?thesis using False by auto
    next
      assume "\<exists>k<n. r = (GetWidth (es ! k), GetHeight (es ! k)) \<and> mw * mh < ?a (es ! k)
           \<and> (\<forall>j<n. ?a (es ! j) \<le> ?a (es ! k)) \<and> (\<forall>j<k. ?a (es ! j) < ?a (es ! k))"
      then obtain k where k: "k < n" "r = (GetWidth (es ! k), GetHeight (es ! k))"
        "mw * mh < ?a (es ! k)" "\<forall>j<n. ?a (es ! j) \<le> ?a (es ! k)" "\<forall>j<k. ?a (es ! j) < ?a (es ! k)"
        by blast
      have "Suc k < Suc n \<and> r = (GetWidth ((?e # es) ! Suc k), GetHeight ((?e # es) ! Suc k))
         \<and> mw * mh < ?a ((?e # es) ! Suc k)
         \<and> (\<forall>j<Suc n. ?a ((?e # es) ! j) \<le> ?a ((?e # es) ! Suc k))
         \<and> (\<forall>j<Suc k. ?a ((?e # es) ! j) < ?a ((?e # es) ! Suc k))"
        using k False by (auto simp: nth_Cons split: nat.splits)
      then show ?thesis by blast
    qed
    with read run es(2) show ?thesis by auto
  qed
qed

lemma DecodeConfig_spec:
  assumes len: "length data = 6 + 16 * unat (Count (parseHeader (take 6 data)))"
    and hdr: "Reserved (parseHeader (take 6 data)) = 0" "Type (parseHeader (take 6 data)) = 1"
      "Count (parseHeader (take 6 data)) \<noteq> 0"
  shows "\<exists>es i. readDirectory data = Ok (parseHeader (take 6 data), es) \<and> i < length es
    \<and> DecodeConfig (data @ payload) =
        (Ok \<lparr>ConfigWidth = GetWidth (es ! i), ConfigHeight = GetHeight (es ! i),
             ConfigCount = uint (Count (parseHeader (take 6 data)))\<rparr>, payload)
    \<and> (\<forall>j<length es. GetWidth (es ! j) * GetHeight (es ! j) \<le> GetWidth (es ! i) * GetHeight (es ! i))
    \<and> (\<forall>j<i. GetWidth (es ! j) * GetHeight (es ! j) < GetWidth (es ! i) * GetHeight (es ! i))"
proof -
  let ?h = "parseHeader (take 6 data)"
  let ?n = "unat (Count ?h)"
  let ?a = "\<lambda>e. GetWidth e * GetHeight e"
  have n: "0 < ?n" using hdr(3) by (simp add: unat_gt_0)
  have dir: "16 * ?n \<le> length (drop 6 data)" using len by simp
  from configLoop_spec [OF dir, of 0 0 0]
  obtain es r where es: "readEntries (drop 6 data) ?n 0 = Ok es" "length es = ?n"
    and r: "configLoop (drop 6 data) ?n 0 (0, 0) = Ok r"
    and alt: "(r = (0, 0) \<and> (\<forall>e\<in>set es. ?a e \<le> 0 * 0)) \<or>
      (\<exists>k<?n. r = (GetWidth (es ! k), GetHeight (es ! k)) \<and> 0 * 0 < ?a (es ! k)
         \<and> (\<forall>j<?n. ?a (es ! j) \<le> ?a (es ! k)) \<and> (\<forall>j<k. ?a (es ! j) < ?a (es ! k)))"
    by blast
  have "es \<noteq> []" using es(2) n by auto
  then obtain e where "e \<in> set es" by (cases es) auto
  moreover have "\<not> ?a e \<le> 0 * 0" using area_positive [of e] by simp
  ultimately have "\<not> (\<forall>e\<in>set es. ?a e \<le> 0 * 0)" by blast
  with alt obtain k where k: "k < ?n" "r = (GetWidth (es ! k), GetHeight (es ! k))"
    "\<forall>j<?n. ?a (es ! j) \<le> ?a (es ! k)" "\<forall>j<k. ?a (es ! j) < ?a (es ! k)" by blast
  have rd: "readDirectory data = Ok (?h, es)"
    using len hdr es by (simp add: readDirectory_def Let_def)
  have t6: "take 6 (data @ payload) = take 6 data" using len by simp
  have d6: "drop 6 (data @ payload) = drop 6 data @ payload" using len by simp
  have "DecodeConfig (data @ payload) =
        (Ok \<lparr>ConfigWidth = GetWidth (es ! k), ConfigHeight = GetHeight (es ! k),
             ConfigCount = uint (Count ?h)\<rparr>, payload)"
    using len hdr r k(2) by (simp add: DecodeConfig_def ReadFull_def t6 d6 Let_def)
  with rd k es(2) show ?thesis by auto
qed

lemma configLoop_never_panics: "configLoop buf n i (mw, mh) \<noteq> Panic"
  by (induction n arbitrary: buf i mw mh) (simp_all add: Let_def)

lemma DecodeConfig_never_panics: "fst (DecodeConfig r) \<noteq> Panic"
proof -
  have "bindR (configLoop buf n 0 (0, 0)) f \<noteq> Panic"
    if "\<And>a. f a \<noteq> Panic" for buf n and f :: "int \<times> int \<Rightarrow> Config result"
    using configLoop_never_panics [of buf n 0 0 0] that
    by (cases "configLoop buf n 0 (0, 0)") simp_all
  then show ?thesis
    by (simp add: DecodeConfig_def ReadFull_def Let_def split: prod.splits)
qed

subsection \<open>Palettes and their indices\<close>

lemma mapM_Ok:
  assumes "\<And>i. i \<in> set xs \<Longrightarrow> \<exists>b. f i = Ok b"
  shows "\<exists>bs. mapM f xs = Ok bs \<and> length bs = length xs"
  using assms
proof (induction xs)
  case Nil
  then show ?case by simp
next
  case (Cons i xs)
  obtain b where "f i = Ok b" using Cons.prems [of i] by auto
  moreover obtain bs where "mapM f xs = Ok bs" "length bs = length xs"
    using Cons.IH Cons.prems by auto
  ultimately show ?case by simp
qed

lemma readPalette_Ok:
  assumes "0 \<le> off" and "off + 4 * n \<le> int (length data)" and "0 \<le> n"
  shows "\<exists>pal. readPalette data off n = Ok pal \<and> length pal = nat n"
proof -
  have "\<exists>b. readPaletteEntry data off i = Ok b" if "i \<in> set [0..n - 1]" for i
  proof -
    from that have "0 \<le> i" "i \<le> n - 1" by simp_all
    then have "0 \<le> off + i * 4" "off + i * 4 + 2 < int (length data)" using assms by simp_all
    then show ?thesis by (simp add: readPaletteEntry_def Let_def index_def)
  qed
  then have "\<exists>bs. mapM (readPaletteEntry data off) [0..n - 1] = Ok bs
      \<and> length bs = length [0..n - 1]"
    by (rule mapM_Ok)
  then show ?thesis using assms(3) by (simp add: readPalette_def)
qed

lemma uint_and_15: "uint (v AND (0x0F :: byte)) < 16"
proof -
  have "v AND 0x0F \<le> 0x0F" by (rule word_and_le1)
  then have "uint (v AND 0x0F) \<le> uint (0x0F :: byte)" by (simp add: word_le_def)
  then show ?thesis by simp
qed

lemma uint_and_1: "uint (v AND (1 :: byte)) < 2"
proof -
  have "v AND 1 \<le> 1" by (rule word_and_le1)
  then have "uint (v AND 1) \<le> uint (1 :: byte)" by (simp add: word_le_def)
  then show ?thesis by simp
qed

lemma uint_byte_256: "uint (v :: byte) < 256"
  using uint_bounded [of v] by simp

subsection \<open>The dispatch on the bit depth\<close>

lemma slice_to_end:
  assumes "lo \<le> length xs"
  shows "slice xs lo (length xs) = Ok (drop lo xs)"
  using assms by (simp add: slice_def)

lemma decodeBMP_dispatch:
  assumes "40 \<le> length data"
  shows "dibBitsPerPixel data = 32 \<Longrightarrow> unat (dibHeaderSize data) \<le> length data \<Longrightarrow>
      decodeBMP data entry
        = decodeBMP32 (drop (unat (dibHeaderSize data)) data) (dibWidth data) (dibHeight data)"
    and "dibBitsPerPixel data = 24 \<Longrightarrow> unat (dibHeaderSize data) \<le> length data \<Longrightarrow>
      decodeBMP data entry
        = decodeBMP24 (drop (unat (dibHeaderSize data)) data) (dibWidth data) (dibHeight data)"
    and "dibBitsPerPixel data = 8 \<Longrightarrow>
      decodeBMP data entry
        = decodeBMP8 data (dibWidth data) (dibHeight data) (uint (dibHeaderSize data))"
    and "dibBitsPerPixel data = 4 \<Longrightarrow>
      decodeBMP data entry
        = decodeBMP4 data (dibWidth data) (dibHeight data) (uint (dibHeaderSize data))"
    and "dibBitsPerPixel data = 1 \<Longrightarrow>
      decodeBMP data entry
        = decodeBMP1 data (dibWidth data) (dibHeight data) (uint (dibHeaderSize data))"
  using assms by (simp_all add: decodeBMP_def Let_def slice_to_end)


lemma uint_le_length: "uint (hs::uint32) \<le> int (length data) \<Longrightarrow> unat hs \<le> length data"
  by (metis uint_nat of_nat_le_iff)

lemma length_drop_unat:
  "unat (hs::uint32) \<le> length data \<Longrightarrow>
     int (length (drop (unat hs) data)) = int (length data) - uint hs"
  by simp
subsection \<open>Complete XOR data is decoded\<close>

lemma NewRGBA_Ok:
  assumes "0 \<le> w" "0 \<le> h" "4 * w * h \<le> maxAlloc"
  shows "\<exists>img. NewRGBA (image_Rect 0 0 w h) = Ok img"
proof -
  have "0 \<le> w * h" using assms by simp
  moreover have "maxAlloc \<le> 2 ^ 63 - 1" by (simp add: maxAlloc_def)
  ultimately show ?thesis using assms by (simp add: NewRGBA_def image_Rect_def Dx_def Dy_def)
qed

lemma srcY_bounds:
  assumes "0 \<le> (S::int)" "0 \<le> y" "y < h"
  shows "0 \<le> (h - 1 - y) * S" and "(h - 1 - y) * S \<le> (h - 1) * S"
  using assms by (simp_all add: mult_right_mono)

lemma stride_nonneg: "0 \<le> r \<Longrightarrow> 0 \<le> r + rowPadding r"
  using rowPadding_bounds [of r] by simp

lemma xorPixel32_total:
  assumes "0 \<le> ro + x * 4" and "ro + x * 4 + 3 < int (length data)"
  shows "\<exists>t. xorPixel32 data ro y x img = Ok t"
  using assms by (simp add: xorPixel32_def Let_def index_def)

lemma xorRow32_total:
  assumes w: "0 < w" and y: "0 \<le> y" "y < h"
    and fits: "(h - 1) * (w * 4 + rowPadding (w * 4)) + w * 4 \<le> int (length data)"
  shows "\<exists>t. xorRow32 data w h y img = Ok t"
proof -
  let ?S = "w * 4 + rowPadding (w * 4)"
  let ?ro = "(h - 1 - y) * ?S"
  have S: "0 \<le> ?S" using w by (intro stride_nonneg) simp
  note ro = srcY_bounds [OF S y]
  have row: "\<not> ?ro + w * 4 > int (length data)" using ro fits by simp
  have "\<exists>t. xorPixel32 data ?ro y x s = Ok t" if "x \<in> set [0..w - 1]" for x s
  proof (rule xorPixel32_total)
    from that have x: "0 \<le> x" "x \<le> w - 1" by simp_all
    show "0 \<le> ?ro + x * 4" using ro(1) x by simp
    show "?ro + x * 4 + 3 < int (length data)" using ro(2) x fits by simp
  qed
  then have "\<exists>t. forM [0..w - 1] (xorPixel32 data ?ro y) img = Ok t" by (rule forM_total)
  then show ?thesis using row by (simp add: xorRow32_def Let_def)
qed

lemma decodeXOR32_total:
  assumes "0 < w" "0 < h" "4 * w * h \<le> maxAlloc"
    and "(h - 1) * (w * 4 + rowPadding (w * 4)) + w * 4 \<le> int (length data)"
  shows "\<exists>t. decodeXOR32 data w h = Ok t"
proof -
  obtain img where img: "NewRGBA (image_Rect 0 0 w h) = Ok img"
    using NewRGBA_Ok [of w h] assms by auto
  have "\<exists>t. xorRow32 data w h y s = Ok t" if "y \<in> set [0..h - 1]" for y s
    using that assms by (intro xorRow32_total) simp_all
  then have "\<exists>t. forM [0..h - 1] (xorRow32 data w h) img = Ok t" by (rule forM_total)
  then show ?thesis using img by (simp add: decodeXOR32_def)
qed

lemma xorPixel24_total:
  assumes "0 \<le> ro + x * 3" and "ro + x * 3 + 2 < int (length data)"
  shows "\<exists>t. xorPixel24 data ro y x img = Ok t"
  using assms by (simp add: xorPixel24_def Let_def index_def)

lemma xorRow24_total:
  assumes w: "0 < w" and y: "0 \<le> y" "y < h"
    and fits: "(h - 1) * (w * 3 + rowPadding (w * 3)) + w * 3 \<le> int (length data)"
  shows "\<exists>t. xorRow24 data w h y img = Ok t"
proof -
  let ?S = "w * 3 + rowPadding (w * 3)"
  let ?ro = "(h - 1 - y) * ?S"
  have S: "0 \<le> ?S" using w by (intro stride_nonneg) simp
  note ro = srcY_bounds [OF S y]
  have row: "\<not> ?ro + w * 3 > int (length data)" using ro fits by simp
  have "\<exists>t. xorPixel24 data ?ro y x s = Ok t" if "x \<in> set [0..w - 1]" for x s
  proof (rule xorPixel24_total)
    from that have x: "0 \<le> x" "x \<le> w - 1" by simp_all
    show "0 \<le> ?ro + x * 3" using ro(1) x by simp
    show "?ro + x * 3 + 2 < int (length data)" using ro(2) x fits by simp
  qed
  then have "\<exists>t. forM [0..w - 1] (xorPixel24 data ?ro y) img = Ok t" by (rule forM_total)
  then show ?thesis using row by (simp add: xorRow24_def Let_def)
qed

lemma decodeXOR24_total:
  assumes "0 < w" "0 < h" "4 * w * h \<le> maxAlloc"
    and "(h - 1) * (w * 3 + rowPadding (w * 3)) + w * 3 \<le> int (length data)"
  shows "\<exists>t. decodeXOR24 data w h = Ok t"
proof -
  obtain img where img: "NewRGBA (image_Rect 0 0 w h) = Ok img"
    using NewRGBA_Ok [of w h] assms by auto
  have "\<exists>t. xorRow24 data w h y s = Ok t" if "y \<in> set [0..h - 1]" for y s
    using that assms by (intro xorRow24_total) simp_all
  then have "\<exists>t. forM [0..h - 1] (xorRow24 data w h) img = Ok t" by (rule forM_total)
  then show ?thesis using img by (simp add: decodeXOR24_def)
qed

lemma xorPixel8_total:
  assumes "0 \<le> ro + x" and "ro + x < int (length data)" and "length pal = 256"
  shows "\<exists>t. xorPixel8 data pal ro y x img = Ok t"
  using assms uint_byte_256 [of "data ! nat (ro + x)"]
  by (simp add: xorPixel8_def Let_def index_def)

lemma xorRow8_total:
  assumes w: "0 < w" and y: "0 \<le> y" "y < h" and pdo: "0 \<le> pdo"
    and fits: "pdo + (h - 1) * (w + rowPadding w) + w \<le> int (length data)"
    and pal: "length pal = 256"
  shows "\<exists>t. xorRow8 data pal w h pdo y img = Ok t"
proof -
  let ?S = "w + rowPadding w"
  let ?ro = "pdo + (h - 1 - y) * ?S"
  have S: "0 \<le> ?S" using w by (intro stride_nonneg) simp
  note ro = srcY_bounds [OF S y]
  have "\<exists>t. xorPixel8 data pal ?ro y x s = Ok t" if "x \<in> set [0..w - 1]" for x s
  proof (rule xorPixel8_total [OF _ _ pal])
    from that have x: "0 \<le> x" "x \<le> w - 1" by simp_all
    show "0 \<le> ?ro + x" using ro(1) x pdo by simp
    show "?ro + x < int (length data)" using ro(2) x fits by simp
  qed
  then have "\<exists>t. forM [0..w - 1] (xorPixel8 data pal ?ro y) img = Ok t" by (rule forM_total)
  then show ?thesis by (simp add: xorRow8_def Let_def)
qed

lemma decodeXOR8_total:
  assumes w: "0 < w" and h: "0 < h" and alloc: "4 * w * h \<le> maxAlloc" and hs: "0 \<le> hs"
    and fits: "hs + 1024 + (h - 1) * (w + rowPadding w) + w \<le> int (length data)"
  shows "\<exists>t. decodeXOR8 data w h hs = Ok t"
proof -
  have S: "0 \<le> w + rowPadding w" using w by (intro stride_nonneg) simp
  then have "0 \<le> (h - 1) * (w + rowPadding w)" using h by simp
  then have palfits: "hs + 4 * 256 \<le> int (length data)" using fits w by simp
  obtain pal where pal: "readPalette data hs 256 = Ok pal" "length pal = 256"
    using readPalette_Ok [OF hs palfits] by auto
  obtain img where img: "NewRGBA (image_Rect 0 0 w h) = Ok img"
    using NewRGBA_Ok [of w h] w h alloc by auto
  have "\<exists>t. xorRow8 data pal w h (hs + 1024) y s = Ok t" if "y \<in> set [0..h - 1]" for y s
    using that w hs fits pal(2) by (intro xorRow8_total) simp_all
  then have "\<exists>t. forM [0..h - 1] (xorRow8 data pal w h (hs + 1024)) img = Ok t"
    by (rule forM_total)
  then show ?thesis using img pal(1) palfits by (simp add: decodeXOR8_def Let_def)
qed

lemma xorPixel4_total:
  assumes "0 \<le> ro + x sdiv 2" and "ro + x sdiv 2 < int (length data)" and "length pal = 16"
  shows "\<exists>t. xorPixel4 data pal w ro y x img = Ok t"
  using assms uint_and_15 [of "data ! nat (ro + x sdiv 2)"]
    uint_and_15 [of "drop_bit 4 (data ! nat (ro + x sdiv 2))"]
  by (simp add: xorPixel4_def Let_def index_def)

lemma xorRow4_total:
  assumes w: "0 < w" and y: "0 \<le> y" "y < h" and pdo: "0 \<le> pdo"
    and fits: "pdo + (h - 1) * ((w + 1) sdiv 2 + rowPadding ((w + 1) sdiv 2)) + (w + 1) sdiv 2
        \<le> int (length data)"
    and pal: "length pal = 16"
  shows "\<exists>t. xorRow4 data pal w h pdo y img = Ok t"
proof -
  let ?R = "(w + 1) sdiv 2"
  let ?S = "?R + rowPadding ?R"
  let ?ro = "pdo + (h - 1 - y) * ?S"
  have R: "?R = (w + 1) div 2" using w by (simp add: sdiv_nonneg)
  have S: "0 \<le> ?S" using w by (intro stride_nonneg) (simp add: R)
  note ro = srcY_bounds [OF S y]
  have "\<exists>t. xorPixel4 data pal w ?ro y x s = Ok t" if "x \<in> set (filter even [0..w - 1])" for x s
  proof (rule xorPixel4_total [OF _ _ pal])
    from that have x: "0 \<le> x" "x \<le> w - 1" by simp_all
    then have d: "x sdiv 2 = x div 2" "0 \<le> x div 2" "x div 2 < (w + 1) div 2"
      by (simp_all add: sdiv_nonneg)
    show "0 \<le> ?ro + x sdiv 2" using ro(1) d pdo by simp
    show "?ro + x sdiv 2 < int (length data)" using ro(2) d fits R by simp
  qed
  then have "\<exists>t. forM (filter even [0..w - 1]) (xorPixel4 data pal w ?ro y) img = Ok t"
    by (rule forM_total)
  then show ?thesis by (simp add: xorRow4_def Let_def)
qed

lemma decodeXOR4_total:
  assumes w: "0 < w" and h: "0 < h" and alloc: "4 * w * h \<le> maxAlloc" and hs: "0 \<le> hs"
    and fits: "hs + 64 + (h - 1) * ((w + 1) sdiv 2 + rowPadding ((w + 1) sdiv 2)) + (w + 1) sdiv 2
        \<le> int (length data)"
  shows "\<exists>t. decodeXOR4 data w h hs = Ok t"
proof -
  let ?R = "(w + 1) sdiv 2"
  have R: "?R = (w + 1) div 2" using w by (simp add: sdiv_nonneg)
  have S: "0 \<le> ?R + rowPadding ?R" using w by (intro stride_nonneg) (simp add: R)
  then have "0 \<le> (h - 1) * (?R + rowPadding ?R)" using h by simp
  moreover have "0 \<le> ?R" using w by (simp add: R)
  ultimately have palfits: "hs + 4 * 16 \<le> int (length data)" using fits by simp
  obtain pal where pal: "readPalette data hs 16 = Ok pal" "length pal = 16"
    using readPalette_Ok [OF hs palfits] by auto
  obtain img where img: "NewRGBA (image_Rect 0 0 w h) = Ok img"
    using NewRGBA_Ok [of w h] w h alloc by auto
  have "\<exists>t. xorRow4 data pal w h (hs + 64) y s = Ok t" if "y \<in> set [0..h - 1]" for y s
    using that w hs fits pal(2) by (intro xorRow4_total) simp_all
  then have "\<exists>t. forM [0..h - 1] (xorRow4 data pal w h (hs + 64)) img = Ok t"
    by (rule forM_total)
  then show ?thesis using img pal(1) palfits by (simp add: decodeXOR4_def Let_def)
qed

lemma xorPixel1_total:
  assumes "0 \<le> ro + x sdiv 8" and "ro + x sdiv 8 < int (length data)" and "length pal = 2"
  shows "\<exists>t. xorPixel1 data pal ro y x img = Ok t"
  using assms uint_and_1 [of "drop_bit (nat (7 - x smod 8)) (data ! nat (ro + x sdiv 8))"]
  by (simp add: xorPixel1_def Let_def index_def)

lemma xorRow1_total:
  assumes w: "0 < w" and y: "0 \<le> y" "y < h" and pdo: "0 \<le> pdo"
    and fits: "pdo + (h - 1) * ((w + 7) sdiv 8 + rowPadding ((w + 7) sdiv 8)) + (w + 7) sdiv 8
        \<le> int (length data)"
    and pal: "length pal = 2"
  shows "\<exists>t. xorRow1 data pal w h pdo y img = Ok t"
proof -
  let ?R = "(w + 7) sdiv 8"
  let ?S = "?R + rowPadding ?R"
  let ?ro = "pdo + (h - 1 - y) * ?S"
  have R: "?R = (w + 7) div 8" using w by (simp add: sdiv_nonneg)
  have S: "0 \<le> ?S" using w by (intro stride_nonneg) (simp add: R)
  note ro = srcY_bounds [OF S y]
  have "\<exists>t. xorPixel1 data pal ?ro y x s = Ok t" if "x \<in> set [0..w - 1]" for x s
  proof (rule xorPixel1_total [OF _ _ pal])
    from that have x: "0 \<le> x" "x \<le> w - 1" by simp_all
    then have d: "x sdiv 8 = x div 8" "0 \<le> x div 8" "x div 8 < (w + 7) div 8"
      by (simp_all add: sdiv_nonneg)
    show "0 \<le> ?ro + x sdiv 8" using ro(1) d pdo by simp
    show "?ro + x sdiv 8 < int (length data)" using ro(2) d fits R by simp
  qed
  then have "\<exists>t. forM [0..w - 1] (xorPixel1 data pal ?ro y) img = Ok t"
    by (rule forM_total)
  then show ?thesis by (simp add: xorRow1_def Let_def)
qed

lemma decodeXOR1_total:
  assumes w: "0 < w" and h: "0 < h" and alloc: "4 * w * h \<le> maxAlloc" and hs: "0 \<le> hs"
    and fits: "hs + 8 + (h - 1) * ((w + 7) sdiv 8 + rowPadding ((w + 7) sdiv 8)) + (w + 7) sdiv 8
        \<le> int (length data)"
  shows "\<exists>t. decodeXOR1 data w h hs = Ok t"
proof -
  let ?R = "(w + 7) sdiv 8"
  have R: "?R = (w + 7) div 8" using w by (simp add: sdiv_nonneg)
  have S: "0 \<le> ?R + rowPadding ?R" using w by (intro stride_nonneg) (simp add: R)
  then have "0 \<le> (h - 1) * (?R + rowPadding ?R)" using h by simp
  moreover have "0 \<le> ?R" using w by (simp add: R)
  ultimately have palfits: "hs + 4 * 2 \<le> int (length data)" using fits by simp
  obtain pal where pal: "readPalette data hs 2 = Ok pal" "length pal = 2"
    using readPalette_Ok [OF hs palfits] by auto
  obtain img where img: "NewRGBA (image_Rect 0 0 w h) = Ok img"
    using NewRGBA_Ok [of w h] w h alloc by auto
  have "\<exists>t. xorRow1 data pal w h (hs + 8) y s = Ok t" if "y \<in> set [0..h - 1]" for y s
    using that w hs fits pal(2) by (intro xorRow1_total) simp_all
  then have "\<exists>t. forM [0..h - 1] (xorRow1 data pal w h (hs + 8)) img = Ok t"
    by (rule forM_total)
  then show ?thesis using img pal(1) palfits by (simp add: decodeXOR1_def Let_def)
qed

subsection \<open>The alpha of the XOR mask\<close>

lemma forM_marks:
  assumes "forM xs f s = Ok t" and "Rect s = R"
    and step: "\<And>x s t. x \<in> set xs \<Longrightarrow> Rect s = R \<Longrightarrow> f x s = Ok t \<Longrightarrow>
                 Rect t = R \<and> (\<forall>p. p \<in> A x \<or> Q (Pix s p) \<longrightarrow> Q (Pix t p))"
  shows "Rect t = R \<and> (\<forall>p. (\<exists>x\<in>set xs. p \<in> A x) \<or> Q (Pix s p) \<longrightarrow> Q (Pix t p))"
  using assms
proof (induction xs arbitrary: s)
  case Nil
  then show ?case by simp
next
  case (Cons x xs)
  from Cons.prems(1) obtain u where u: "f x s = Ok u" and rest: "forM xs f u = Ok t"
    by (auto simp: bindR_eq_Ok)
  have first: "Rect u = R \<and> (\<forall>p. p \<in> A x \<or> Q (Pix s p) \<longrightarrow> Q (Pix u p))"
    using Cons.prems(3) [of x s u] Cons.prems(2) u by simp
  have later: "Rect t' = R \<and> (\<forall>p. p \<in> A x' \<or> Q (Pix s' p) \<longrightarrow> Q (Pix t' p))"
    if "x' \<in> set xs" "Rect s' = R" "f x' s' = Ok t'" for x' s' t'
    using Cons.prems(3) [of x' s' t'] that by simp
  have "Rect t = R \<and> (\<forall>p. (\<exists>x\<in>set xs. p \<in> A x) \<or> Q (Pix u p) \<longrightarrow> Q (Pix t p))"
    using Cons.IH [OF rest _ later] first by blast
  with first show ?case by auto
qed

lemma Set_RGBA_marks:
  assumes "nA c = 255"
  shows "\<forall>p. p \<in> {q. q = (x, y) \<and> In x y (Rect img)} \<or> cA (Pix img p) = 255
           \<longrightarrow> cA (Pix (Set_RGBA img x y c) p) = 255"
  using assms by (simp add: Set_RGBA_def)

lemma xorPixel24_marks:
  assumes "xorPixel24 data ro y x img = Ok t"
  shows "Rect t = Rect img \<and>
    (\<forall>p. p \<in> {q. q = (x, y) \<and> In x y (Rect img)} \<or> cA (Pix img p) = 255 \<longrightarrow> cA (Pix t p) = 255)"
proof -
  from assms obtain r g b where t: "t = Set_RGBA img x y (NRGBA r g b 255)"
    by (auto simp: xorPixel24_def Let_def bindR_eq_Ok split: if_splits)
  show ?thesis using t Set_RGBA_marks [of "NRGBA r g b 255" x y img] by simp
qed

lemma xorRow24_marks:
  assumes "xorRow24 data w h y img = Ok t"
  shows "Rect t = Rect img \<and>
    (\<forall>p. (\<exists>x\<in>set [0..w - 1]. p \<in> {q. q = (x, y) \<and> In x y (Rect img)}) \<or> cA (Pix img p) = 255
        \<longrightarrow> cA (Pix t p) = 255)"
proof -
  let ?ro = "(h - 1 - y) * (w * 3 + rowPadding (w * 3))"
  have loop: "forM [0..w - 1] (xorPixel24 data ?ro y) img = Ok t"
    using assms by (simp add: xorRow24_def Let_def split: if_splits)
  show ?thesis
    by (rule forM_marks [OF loop refl]) (drule xorPixel24_marks, simp)
qed

lemma decodeXOR24_alpha:
  assumes "decodeXOR24 data w h = Ok t" and "0 \<le> x" "x < w" "0 \<le> y" "y < h"
  shows "cA (RGBAAt t x y) = 255"
proof -
  from assms(1) obtain img where new: "NewRGBA (image_Rect 0 0 w h) = Ok img"
    and loop: "forM [0..h - 1] (xorRow24 data w h) img = Ok t"
    by (auto simp: decodeXOR24_def bindR_eq_Ok)
  from new have img: "Rect img = image_Rect 0 0 w h" by (rule NewRGBA_Rect)
  have "Rect t = image_Rect 0 0 w h \<and>
    (\<forall>p. (\<exists>y\<in>set [0..h - 1]. p \<in> {q. \<exists>x\<in>set [0..w - 1]. q = (x, y) \<and> In x y (image_Rect 0 0 w h)})
        \<or> cA (Pix img p) = 255 \<longrightarrow> cA (Pix t p) = 255)"
    by (rule forM_marks [OF loop img]) (drule xorRow24_marks, simp)
  moreover have "In x y (image_Rect 0 0 w h)" using assms(2-5) by (rule In_image_Rect)
  ultimately show ?thesis using assms(2-5) by (auto simp: RGBAAt_def)
qed

lemma mapM_all:
  assumes "mapM f xs = Ok bs" and "\<And>i b. i \<in> set xs \<Longrightarrow> f i = Ok b \<Longrightarrow> P b"
  shows "\<forall>b\<in>set bs. P b"
  using assms
proof (induction xs arbitrary: bs)
  case Nil
  then show ?case by simp
next
  case (Cons i xs)
  from Cons.prems(1) obtain b bs' where b: "f i = Ok b" and bs': "mapM f xs = Ok bs'"
    and bs: "bs = b # bs'"
    by (auto simp: bindR_eq_Ok)
  have "P b" using Cons.prems(2) [of i b] b by simp
  moreover have "\<forall>b\<in>set bs'. P b"
  proof (rule Cons.IH [OF bs'])
    fix i' b' assume "i' \<in> set xs" "f i' = Ok b'"
    then show "P b'" using Cons.prems(2) [of i' b'] by simp
  qed
  ultimately show ?case using bs by simp
qed

lemma readPalette_opaque:
  assumes "readPalette data off n = Ok pal"
  shows "\<forall>c\<in>set pal. nA c = 255"
proof (rule mapM_all [where f = "readPaletteEntry data off" and xs = "[0..n - 1]"])
  show "mapM (readPaletteEntry data off) [0..n - 1] = Ok pal"
    using assms by (simp add: readPalette_def)
  show "nA b = 255" if "readPaletteEntry data off i = Ok b" for i b
    using that by (auto simp: readPaletteEntry_def Let_def bindR_eq_Ok)
qed

lemma index_palette_opaque:
  assumes "\<forall>c\<in>set pal. nA c = 255" and "index pal i = Ok c"
  shows "nA c = 255"
  using assms by (auto simp: index_eq_Ok)

lemma xorPixel8_marks:
  assumes pal: "\<forall>c\<in>set pal. nA c = 255" and "xorPixel8 data pal ro y x img = Ok t"
  shows "Rect t = Rect img \<and>
    (\<forall>p. p \<in> {q. q = (x, y) \<and> In x y (Rect img)} \<or> cA (Pix img p) = 255 \<longrightarrow> cA (Pix t p) = 255)"
proof -
  from assms(2) obtain i c where c: "index pal i = Ok c"
    and t: "t = Set_RGBA img x y c"
    by (auto simp: xorPixel8_def bindR_eq_Ok split: if_splits)
  have "nA c = 255" using index_palette_opaque [OF pal c] .
  then show ?thesis using t Set_RGBA_marks [of c x y img] by simp
qed

lemma xorRow8_marks:
  assumes pal: "\<forall>c\<in>set pal. nA c = 255" and "xorRow8 data pal w h pdo y img = Ok t"
  shows "Rect t = Rect img \<and>
    (\<forall>p. (\<exists>x\<in>set [0..w - 1]. p \<in> {q. q = (x, y) \<and> In x y (Rect img)}) \<or> cA (Pix img p) = 255
        \<longrightarrow> cA (Pix t p) = 255)"
proof -
  let ?ro = "pdo + (h - 1 - y) * (w + rowPadding w)"
  have loop: "forM [0..w - 1] (xorPixel8 data pal ?ro y) img = Ok t"
    using assms(2) by (simp add: xorRow8_def Let_def)
  show ?thesis
    by (rule forM_marks [OF loop refl]) (drule xorPixel8_marks [OF pal], simp)
qed

lemma decodeXOR8_alpha:
  assumes "decodeXOR8 data w h hs = Ok t" and "0 \<le> x" "x < w" "0 \<le> y" "y < h"
  shows "cA (RGBAAt t x y) = 255"
proof -
  from assms(1) obtain pal img where pal: "readPalette data hs 256 = Ok pal"
    and new: "NewRGBA (image_Rect 0 0 w h) = Ok img"
    and loop: "forM [0..h - 1] (xorRow8 data pal w h (hs + 1024)) img = Ok t"
    by (auto simp: decodeXOR8_def Let_def bindR_eq_Ok split: if_splits)
  note opaque = readPalette_opaque [OF pal]
  from new have img: "Rect img = image_Rect 0 0 w h" by (rule NewRGBA_Rect)
  have "Rect t = image_Rect 0 0 w h \<and>
    (\<forall>p. (\<exists>y\<in>set [0..h - 1]. p \<in> {q. \<exists>x\<in>set [0..w - 1]. q = (x, y) \<and> In x y (image_Rect 0 0 w h)})
        \<or> cA (Pix img p) = 255 \<longrightarrow> cA (Pix t p) = 255)"
    by (rule forM_marks [OF loop img]) (drule xorRow8_marks [OF opaque], simp)
  moreover have "In x y (image_Rect 0 0 w h)" using assms(2-5) by (rule In_image_Rect)
  ultimately show ?thesis using assms(2-5) by (auto simp: RGBAAt_def)
qed

lemma xorPixel1_marks:
  assumes pal: "\<forall>c\<in>set pal. nA c = 255" and "xorPixel1 data pal ro y x img = Ok t"
  shows "Rect t = Rect img \<and>
    (\<forall>p. p \<in> {q. q = (x, y) \<and> In x y (Rect img)} \<or> cA (Pix img p) = 255 \<longrightarrow> cA (Pix t p) = 255)"
proof -
  from assms(2) obtain i c where c: "index pal i = Ok c"
    and t: "t = Set_RGBA img x y c"
    by (auto simp: xorPixel1_def Let_def bindR_eq_Ok split: if_splits)
  have "nA c = 255" using index_palette_opaque [OF pal c] .
  then show ?thesis using t Set_RGBA_marks [of c x y img] by simp
qed

lemma xorRow1_marks:
  assumes pal: "\<forall>c\<in>set pal. nA c = 255" and "xorRow1 data pal w h pdo y img = Ok t"
  shows "Rect t = Rect img \<and>
    (\<forall>p. (\<exists>x\<in>set [0..w - 1]. p \<in> {q. q = (x, y) \<and> In x y (Rect img)}) \<or> cA (Pix img p) = 255
        \<longrightarrow> cA (Pix t p) = 255)"
proof -
  let ?ro = "pdo + (h - 1 - y) * ((w + 7) sdiv 8 + rowPadding ((w + 7) sdiv 8))"
  have loop: "forM [0..w - 1] (xorPixel1 data pal ?ro y) img = Ok t"
    using assms(2) by (simp add: xorRow1_def Let_def)
  show ?thesis
    by (rule forM_marks [OF loop refl]) (drule xorPixel1_marks [OF pal], simp)
qed

lemma decodeXOR1_alpha:
  assumes "decodeXOR1 data w h hs = Ok t" and "0 \<le> x" "x < w" "0 \<le> y" "y < h"
  shows "cA (RGBAAt t x y) = 255"
proof -
  from assms(1) obtain pal img where pal: "readPalette data hs 2 = Ok pal"
    and new: "NewRGBA (image_Rect 0 0 w h) = Ok img"
    and loop: "forM [0..h - 1] (xorRow1 data pal w h (hs + 8)) img = Ok t"
    by (auto simp: decodeXOR1_def Let_def bindR_eq_Ok split: if_splits)
  note opaque = readPalette_opaque [OF pal]
  from new have img: "Rect img = image_Rect 0 0 w h" by (rule NewRGBA_Rect)
  have "Rect t = image_Rect 0 0 w h \<and>
    (\<forall>p. (\<exists>y\<in>set [0..h - 1]. p \<in> {q. \<exists>x\<in>set [0..w - 1]. q = (x, y) \<and> In x y (image_Rect 0 0 w h)})
        \<or> cA (Pix img p) = 255 \<longrightarrow> cA (Pix t p) = 255)"
    by (rule forM_marks [OF loop img]) (drule xorRow1_marks [OF opaque], simp)
  moreover have "In x y (image_Rect 0 0 w h)" using assms(2-5) by (rule In_image_Rect)
  ultimately show ?thesis using assms(2-5) by (auto simp: RGBAAt_def)
qed

lemma xorPixel4_marks:
  assumes pal: "\<forall>c\<in>set pal. nA c = 255" and "xorPixel4 data pal w ro y x img = Ok t"
  shows "Rect t = Rect img \<and>
    (\<forall>p. p \<in> {q. (q = (x, y) \<and> In x y (Rect img))
                \<or> (x + 1 < w \<and> q = (x + 1, y) \<and> In (x + 1) y (Rect img))}
          \<or> cA (Pix img p) = 255 \<longrightarrow> cA (Pix t p) = 255)"
proof -
  from assms(2) have "\<not> ro + x sdiv 2 \<ge> int (length data)"
    by (auto simp: xorPixel4_def Let_def split: if_splits)
  with assms(2) have "bindR (index data (ro + x sdiv 2)) (\<lambda>pb.
      bindR (index pal (uint ((drop_bit 4 pb) AND 0x0F))) (\<lambda>c1.
        if x + 1 < w
        then bindR (index pal (uint (pb AND 0x0F)))
               (\<lambda>c2. Ok (Set_RGBA (Set_RGBA img x y c1) (x + 1) y c2))
        else Ok (Set_RGBA img x y c1))) = Ok t"
    by (simp add: xorPixel4_def Let_def)
  then obtain pb :: byte and c1 where c1: "index pal (uint ((drop_bit 4 pb) AND 0x0F)) = Ok c1"
    and rest: "(if x + 1 < w
        then bindR (index pal (uint (pb AND 0x0F)))
               (\<lambda>c2. Ok (Set_RGBA (Set_RGBA img x y c1) (x + 1) y c2))
        else Ok (Set_RGBA img x y c1)) = Ok t"
    by (simp only: bindR_eq_Ok) blast
  have a1: "nA c1 = 255" using index_palette_opaque [OF pal c1] .
  note m1 = Set_RGBA_marks [OF a1, of x y img]
  show ?thesis
  proof (cases "x + 1 < w")
    case False
    then have "t = Set_RGBA img x y c1" using rest by simp
    then show ?thesis using m1 False by simp
  next
    case True
    then obtain c2 where c2: "index pal (uint (pb AND 0x0F)) = Ok c2"
      and t: "t = Set_RGBA (Set_RGBA img x y c1) (x + 1) y c2"
      using rest by (auto simp: bindR_eq_Ok)
    have a2: "nA c2 = 255" using index_palette_opaque [OF pal c2] .
    note m2 = Set_RGBA_marks [OF a2, of "x + 1" y "Set_RGBA img x y c1"]
    show ?thesis using t m1 m2 True by simp
  qed
qed

lemma xorRow4_marks:
  assumes pal: "\<forall>c\<in>set pal. nA c = 255" and "xorRow4 data pal w h pdo y img = Ok t"
  shows "Rect t = Rect img \<and>
    (\<forall>p. (\<exists>x\<in>set (filter even [0..w - 1]).
             p \<in> {q. (q = (x, y) \<and> In x y (Rect img))
                    \<or> (x + 1 < w \<and> q = (x + 1, y) \<and> In (x + 1) y (Rect img))})
          \<or> cA (Pix img p) = 255 \<longrightarrow> cA (Pix t p) = 255)"
proof -
  let ?ro = "pdo + (h - 1 - y) * ((w + 1) sdiv 2 + rowPadding ((w + 1) sdiv 2))"
  have loop: "forM (filter even [0..w - 1]) (xorPixel4 data pal w ?ro y) img = Ok t"
    using assms(2) by (simp add: xorRow4_def Let_def)
  show ?thesis
    by (rule forM_marks [OF loop refl]) (drule xorPixel4_marks [OF pal], simp)
qed

lemma pair_covered:
  assumes "0 \<le> x" "x < (w::int)"
  shows "\<exists>x'\<in>set (filter even [0..w - 1]). x = x' \<or> (x' + 1 < w \<and> x = x' + 1)"
proof (cases "even x")
  case True
  then show ?thesis using assms by auto
next
  case False
  then have "even (x - 1)" "0 \<le> x - 1" using assms by presburger+
  then have "x - 1 \<in> set (filter even [0..w - 1])" using assms by simp
  moreover have "x - 1 + 1 < w \<and> x = x - 1 + 1" using assms by simp
  ultimately show ?thesis by blast
qed

lemma decodeXOR4_alpha:
  assumes "decodeXOR4 data w h hs = Ok t" and "0 \<le> x" "x < w" "0 \<le> y" "y < h"
  shows "cA (RGBAAt t x y) = 255"
proof -
  from assms(1) obtain pal img where pal: "readPalette data hs 16 = Ok pal"
    and new: "NewRGBA (image_Rect 0 0 w h) = Ok img"
    and loop: "forM [0..h - 1] (xorRow4 data pal w h (hs + 64)) img = Ok t"
    by (auto simp: decodeXOR4_def Let_def bindR_eq_Ok split: if_splits)
  note opaque = readPalette_opaque [OF pal]
  from new have img: "Rect img = image_Rect 0 0 w h" by (rule NewRGBA_Rect)
  let ?R = "image_Rect 0 0 w h"
  have marks: "Rect t = ?R \<and>
    (\<forall>p. (\<exists>y\<in>set [0..h - 1]. p \<in> {q. \<exists>x\<in>set (filter even [0..w - 1]).
                q \<in> {q. (q = (x, y) \<and> In x y ?R) \<or> (x + 1 < w \<and> q = (x + 1, y) \<and> In (x + 1) y ?R)}})
        \<or> cA (Pix img p) = 255 \<longrightarrow> cA (Pix t p) = 255)"
    by (rule forM_marks [OF loop img]) (drule xorRow4_marks [OF opaque], simp)
  have inR: "In x y ?R" using assms(2-5) by (rule In_image_Rect)
  obtain x' where x': "x' \<in> set (filter even [0..w - 1])" "x = x' \<or> (x' + 1 < w \<and> x = x' + 1)"
    using pair_covered [OF assms(2,3)] by blast
  have "y \<in> set [0..h - 1]" using assms(4,5) by simp
  moreover have "(x, y) \<in> {q. \<exists>x\<in>set (filter even [0..w - 1]).
                q \<in> {q. (q = (x, y) \<and> In x y ?R) \<or> (x + 1 < w \<and> q = (x + 1, y) \<and> In (x + 1) y ?R)}}"
    using x' inR by auto
  ultimately have "cA (Pix t (x, y)) = 255" using marks by blast
  then show ?thesis using marks inR by (simp add: RGBAAt_def)
qed

subsection \<open>The alpha of a decoded bitmap\<close>

lemma masked_alpha:
  assumes mask: "applyANDMask d w h off t = Ok img" and rect: "Rect t = image_Rect 0 0 w h"
    and range: "0 \<le> x" "x < w" "0 \<le> y" "y < h"
  shows "cA (RGBAAt img x y) =
      (if off + h * andTotalRowSize w \<le> int (length d) \<and> maskBit d w h off x y then 0
       else cA (RGBAAt t x y))"
proof -
  note pm = applyANDMask_paints [OF mask]
  have inR: "In x y (Rect t)" using rect range by (simp add: In_image_Rect)
  have "andByteOffset w h off x y < int (length d)"
    if "off + h * andTotalRowSize w \<le> int (length d)"
    using andByteOffset_in_range [OF that] range by simp
  then show ?thesis using pm inR range by (auto simp: RGBAAt_def)
qed

lemma andByteOffset_nonneg:
  assumes "0 \<le> off" and x: "0 \<le> x" "x < w" and y: "0 \<le> y" "y < h"
  shows "0 \<le> andByteOffset w h off x y"
proof -
  have d: "0 \<le> x sdiv 8" using x by (simp add: sdiv_nonneg)
  then have "0 \<le> andTotalRowSize w" using andTotalRowSize_gt [OF x] by simp
  then have "0 \<le> (h - 1 - y) * andTotalRowSize w" using y by simp
  then show ?thesis using assms(1) d by (simp add: andByteOffset_def)
qed

lemma nth_drop_int:
  assumes "n \<le> length xs" and "0 \<le> k"
  shows "drop n xs ! nat k = xs ! nat (int n + k)"
  using assms by (simp add: nat_add_distrib)

lemma maskBit_drop:
  assumes "n \<le> length data" and "0 \<le> andByteOffset w h off x y"
  shows "maskBit (drop n data) w h off x y = maskBit data w h (int n + off) x y"
proof -
  have "andByteOffset w h (int n + off) x y = int n + andByteOffset w h off x y"
    by (simp add: andByteOffset_def)
  then show ?thesis using nth_drop_int [OF assms] by (simp add: maskBit_def)
qed

lemma decodeBMP32_alpha:
  assumes "decodeBMP32 d w h = Ok img" and range: "0 \<le> x" "x < w" "0 \<le> y" "y < h"
  shows "cA (RGBAAt img x y) =
      (if h * (w * 4 + rowPadding (w * 4)) + h * andTotalRowSize w \<le> int (length d)
          \<and> maskBit d w h (h * (w * 4 + rowPadding (w * 4))) x y then 0
       else d ! nat ((h - 1 - y) * (w * 4 + rowPadding (w * 4)) + x * 4 + 3))"
  using decodeBMP32_pixels [OF assms] by (simp add: xorColor32_def Let_def)

lemma decodeBMP24_alpha:
  assumes "decodeBMP24 d w h = Ok img" and range: "0 \<le> x" "x < w" "0 \<le> y" "y < h"
  shows "cA (RGBAAt img x y) =
      (if h * (w * 3 + rowPadding (w * 3)) + h * andTotalRowSize w \<le> int (length d)
          \<and> maskBit d w h (h * (w * 3 + rowPadding (w * 3))) x y then 0
       else 255)"
proof -
  from assms(1) obtain t where xor: "decodeXOR24 d w h = Ok t"
    and mask: "applyANDMask d w h (h * (w * 3 + rowPadding (w * 3))) t = Ok img"
    by (auto simp: decodeBMP24_def bindR_eq_Ok)
  show ?thesis
    using masked_alpha [OF mask decodeXOR24_Rect [OF xor] range] decodeXOR24_alpha [OF xor range]
    by simp
qed

lemma decodeBMP8_alpha:
  assumes "decodeBMP8 d w h hs = Ok img" and range: "0 \<le> x" "x < w" "0 \<le> y" "y < h"
  shows "cA (RGBAAt img x y) =
      (if hs + 1024 + h * (w + rowPadding w) + h * andTotalRowSize w \<le> int (length d)
          \<and> maskBit d w h (hs + 1024 + h * (w + rowPadding w)) x y then 0
       else 255)"
proof -
  from assms(1) obtain t where xor: "decodeXOR8 d w h hs = Ok t"
    and mask: "applyANDMask d w h (hs + 1024 + h * (w + rowPadding w)) t = Ok img"
    by (auto simp: decodeBMP8_def bindR_eq_Ok)
  show ?thesis
    using masked_alpha [OF mask decodeXOR8_Rect [OF xor] range] decodeXOR8_alpha [OF xor range]
    by simp
qed

lemma decodeBMP4_alpha:
  assumes "decodeBMP4 d w h hs = Ok img" and range: "0 \<le> x" "x < w" "0 \<le> y" "y < h"
  shows "cA (RGBAAt img x y) =
      (if hs + 64 + h * ((w + 1) sdiv 2 + rowPadding ((w + 1) sdiv 2)) + h * andTotalRowSize w
            \<le> int (length d)
          \<and> maskBit d w h (hs + 64 + h * ((w + 1) sdiv 2 + rowPadding ((w + 1) sdiv 2))) x y
       then 0 else 255)"
proof -
  from assms(1) obtain t where xor: "decodeXOR4 d w h hs = Ok t"
    and mask: "applyANDMask d w h
        (hs + 64 + h * ((w + 1) sdiv 2 + rowPadding ((w + 1) sdiv 2))) t = Ok img"
    by (auto simp: decodeBMP4_def bindR_eq_Ok)
  show ?thesis
    using masked_alpha [OF mask decodeXOR4_Rect [OF xor] range] decodeXOR4_alpha [OF xor range]
    by simp
qed

lemma decodeBMP1_alpha:
  assumes "decodeBMP1 d w h hs = Ok img" and range: "0 \<le> x" "x < w" "0 \<le> y" "y < h"
  shows "cA (RGBAAt img x y) =
      (if hs + 8 + h * ((w + 7) sdiv 8 + rowPadding ((w + 7) sdiv 8)) + h * andTotalRowSize w
            \<le> int (length d)
          \<and> maskBit d w h (hs + 8 + h * ((w + 7) sdiv 8 + rowPadding ((w + 7) sdiv 8))) x y
       then 0 else 255)"
proof -
  from assms(1) obtain t where xor: "decodeXOR1 d w h hs = Ok t"
    and mask: "applyANDMask d w h
        (hs + 8 + h * ((w + 7) sdiv 8 + rowPadding ((w + 7) sdiv 8))) t = Ok img"
    by (auto simp: decodeBMP1_def bindR_eq_Ok)
  show ?thesis
    using masked_alpha [OF mask decodeXOR1_Rect [OF xor] range] decodeXOR1_alpha [OF xor range]
    by simp
qed

lemma decodeBMP_cases:
  assumes "decodeBMP data entry = Ok img"
  shows "40 \<le> length data \<and> supportedDepth (dibBitsPerPixel data)"
    and "dibBitsPerPixel data = 32 \<Longrightarrow> unat (dibHeaderSize data) \<le> length data
        \<and> decodeBMP32 (drop (unat (dibHeaderSize data)) data) (dibWidth data) (dibHeight data) = Ok img"
    and "dibBitsPerPixel data = 24 \<Longrightarrow> unat (dibHeaderSize data) \<le> length data
        \<and> decodeBMP24 (drop (unat (dibHeaderSize data)) data) (dibWidth data) (dibHeight data) = Ok img"
    and "dibBitsPerPixel data = 8 \<Longrightarrow>
        decodeBMP8 data (dibWidth data) (dibHeight data) (uint (dibHeaderSize data)) = Ok img"
    and "dibBitsPerPixel data = 4 \<Longrightarrow>
        decodeBMP4 data (dibWidth data) (dibHeight data) (uint (dibHeaderSize data)) = Ok img"
    and "dibBitsPerPixel data = 1 \<Longrightarrow>
        decodeBMP1 data (dibWidth data) (dibHeight data) (uint (dibHeaderSize data)) = Ok img"
  using assms
  by (auto simp: decodeBMP_def Let_def supportedDepth_def bindR_eq_Ok slice_def split: if_splits)

lemma layout32:
  assumes "dibBitsPerPixel data = 32"
  shows "andMaskStart data = uint (dibHeaderSize data)
      + dibHeight data * (dibWidth data * 4 + rowPadding (dibWidth data * 4))"
    and "xorByteOffset data x y = uint (dibHeaderSize data)
      + (dibHeight data - 1 - y) * (dibWidth data * 4 + rowPadding (dibWidth data * 4)) + x * 4 + 3"
    and "xorDataComplete data = (uint (dibHeaderSize data)
      + (dibHeight data - 1) * (dibWidth data * 4 + rowPadding (dibWidth data * 4))
      + dibWidth data * 4 \<le> int (length data))"
    and "xorAlpha data x y = data ! nat (xorByteOffset data x y)"
  by (simp_all add: layout_defs Let_def assms)

lemma layout24:
  assumes "dibBitsPerPixel data = 24"
  shows "andMaskStart data = uint (dibHeaderSize data)
      + dibHeight data * (dibWidth data * 3 + rowPadding (dibWidth data * 3))"
    and "xorByteOffset data x y = uint (dibHeaderSize data)
      + (dibHeight data - 1 - y) * (dibWidth data * 3 + rowPadding (dibWidth data * 3)) + x * 3 + 2"
    and "xorDataComplete data = (uint (dibHeaderSize data)
      + (dibHeight data - 1) * (dibWidth data * 3 + rowPadding (dibWidth data * 3))
      + dibWidth data * 3 \<le> int (length data))"
    and "xorAlpha data x y = 255"
  by (simp_all add: layout_defs Let_def assms)

lemma layout8:
  assumes "dibBitsPerPixel data = 8"
  shows "andMaskStart data = uint (dibHeaderSize data) + 1024
      + dibHeight data * (dibWidth data + rowPadding (dibWidth data))"
    and "xorByteOffset data x y = uint (dibHeaderSize data) + 1024
      + (dibHeight data - 1 - y) * (dibWidth data + rowPadding (dibWidth data)) + x"
    and "xorDataComplete data = (uint (dibHeaderSize data) + 1024
      + (dibHeight data - 1) * (dibWidth data + rowPadding (dibWidth data))
      + dibWidth data \<le> int (length data))"
    and "xorAlpha data x y = 255"
  by (simp_all add: layout_defs Let_def assms)

lemma layout4:
  assumes "dibBitsPerPixel data = 4"
  shows "andMaskStart data = uint (dibHeaderSize data) + 64
      + dibHeight data * ((dibWidth data + 1) sdiv 2 + rowPadding ((dibWidth data + 1) sdiv 2))"
    and "xorByteOffset data x y = uint (dibHeaderSize data) + 64
      + (dibHeight data - 1 - y)
          * ((dibWidth data + 1) sdiv 2 + rowPadding ((dibWidth data + 1) sdiv 2)) + x sdiv 2"
    and "xorDataComplete data = (uint (dibHeaderSize data) + 64
      + (dibHeight data - 1)
          * ((dibWidth data + 1) sdiv 2 + rowPadding ((dibWidth data + 1) sdiv 2))
      + (dibWidth data + 1) sdiv 2 \<le> int (length data))"
    and "xorAlpha data x y = 255"
  by (simp_all add: layout_defs Let_def assms)

lemma layout1:
  assumes "dibBitsPerPixel data = 1"
  shows "andMaskStart data = uint (dibHeaderSize data) + 8
      + dibHeight data * ((dibWidth data + 7) sdiv 8 + rowPadding ((dibWidth data + 7) sdiv 8))"
    and "xorByteOffset data x y = uint (dibHeaderSize data) + 8
      + (dibHeight data - 1 - y)
          * ((dibWidth data + 7) sdiv 8 + rowPadding ((dibWidth data + 7) sdiv 8)) + x sdiv 8"
    and "xorDataComplete data = (uint (dibHeaderSize data) + 8
      + (dibHeight data - 1)
          * ((dibWidth data + 7) sdiv 8 + rowPadding ((dibWidth data + 7) sdiv 8))
      + (dibWidth data + 7) sdiv 8 \<le> int (length data))"
    and "xorAlpha data x y = 255"
  by (simp_all add: layout_defs Let_def assms)

lemma decodeBMP_alpha32:
  assumes ok: "decodeBMP data entry = Ok img" and bpp: "dibBitsPerPixel data = 32"
    and range: "0 \<le> x" "x < dibWidth data" "0 \<le> y" "y < dibHeight data"
  shows "cA (RGBAAt img x y) =
      (if andMaskApplied data \<and> andMaskBit data x y then 0 else xorAlpha data x y)"
proof -
  let ?hs = "dibHeaderSize data" and ?w = "dibWidth data" and ?h = "dibHeight data"
  let ?rest = "drop (unat ?hs) data"
  let ?S = "?w * 4 + rowPadding (?w * 4)"
  note lay = layout32 [OF bpp]
  from decodeBMP_cases(2) [OF ok bpp]
  have hs: "unat ?hs \<le> length data" and dec: "decodeBMP32 ?rest ?w ?h = Ok img" by simp_all
  have len: "int (length ?rest) = int (length data) - uint ?hs" using hs by (rule length_drop_unat)
  have S: "0 \<le> ?S" using range by (intro stride_nonneg) simp
  have hS: "0 \<le> ?h * ?S" using S range by simp
  have px: "0 \<le> (?h - 1 - y) * ?S + x * 4 + 3" using srcY_bounds(1) [OF S range(3,4)] range by simp
  have bit: "maskBit ?rest ?w ?h (?h * ?S) x y = andMaskBit data x y"
    using maskBit_drop [OF hs andByteOffset_nonneg [OF hS range]]
    by (simp add: andMaskBit_def lay(1))
  have applied: "(?h * ?S + ?h * andTotalRowSize ?w \<le> int (length ?rest)) = andMaskApplied data"
    unfolding andMaskApplied_def lay(1) len by linarith
  have "int (unat ?hs) + ((?h - 1 - y) * ?S + x * 4 + 3) = xorByteOffset data x y"
    unfolding lay(2) by simp
  then have alpha: "?rest ! nat ((?h - 1 - y) * ?S + x * 4 + 3) = xorAlpha data x y"
    using nth_drop_int [OF hs px] by (simp only: lay(4))
  show ?thesis using decodeBMP32_alpha [OF dec range] bit applied alpha by simp
qed

lemma decodeBMP_alpha24:
  assumes ok: "decodeBMP data entry = Ok img" and bpp: "dibBitsPerPixel data = 24"
    and range: "0 \<le> x" "x < dibWidth data" "0 \<le> y" "y < dibHeight data"
  shows "cA (RGBAAt img x y) =
      (if andMaskApplied data \<and> andMaskBit data x y then 0 else xorAlpha data x y)"
proof -
  let ?hs = "dibHeaderSize data" and ?w = "dibWidth data" and ?h = "dibHeight data"
  let ?rest = "drop (unat ?hs) data"
  let ?S = "?w * 3 + rowPadding (?w * 3)"
  note lay = layout24 [OF bpp]
  from decodeBMP_cases(3) [OF ok bpp]
  have hs: "unat ?hs \<le> length data" and dec: "decodeBMP24 ?rest ?w ?h = Ok img" by simp_all
  have len: "int (length ?rest) = int (length data) - uint ?hs" using hs by (rule length_drop_unat)
  have S: "0 \<le> ?S" using range by (intro stride_nonneg) simp
  have hS: "0 \<le> ?h * ?S" using S range by simp
  have bit: "maskBit ?rest ?w ?h (?h * ?S) x y = andMaskBit data x y"
    using maskBit_drop [OF hs andByteOffset_nonneg [OF hS range]]
    by (simp add: andMaskBit_def lay(1))
  have applied: "(?h * ?S + ?h * andTotalRowSize ?w \<le> int (length ?rest)) = andMaskApplied data"
    unfolding andMaskApplied_def lay(1) len by linarith
  show ?thesis using decodeBMP24_alpha [OF dec range] bit applied lay(4) by simp
qed

lemma decodeBMP_alpha_palette:
  assumes ok: "decodeBMP data entry = Ok img"
    and bpp: "dibBitsPerPixel data = 8 \<or> dibBitsPerPixel data = 4 \<or> dibBitsPerPixel data = 1"
    and range: "0 \<le> x" "x < dibWidth data" "0 \<le> y" "y < dibHeight data"
  shows "cA (RGBAAt img x y) =
      (if andMaskApplied data \<and> andMaskBit data x y then 0 else xorAlpha data x y)"
proof -
  consider (8) "dibBitsPerPixel data = 8" | (4) "dibBitsPerPixel data = 4"
    | (1) "dibBitsPerPixel data = 1" using bpp by fast
  then show ?thesis
  proof cases
    case 8
    show ?thesis using decodeBMP8_alpha [OF decodeBMP_cases(4) [OF ok 8] range]
      by (simp add: andMaskApplied_def andMaskBit_def layout8 [OF 8])
  next
    case 4
    show ?thesis using decodeBMP4_alpha [OF decodeBMP_cases(5) [OF ok 4] range]
      by (simp add: andMaskApplied_def andMaskBit_def layout4 [OF 4])
  next
    case 1
    show ?thesis using decodeBMP1_alpha [OF decodeBMP_cases(6) [OF ok 1] range]
      by (simp add: andMaskApplied_def andMaskBit_def layout1 [OF 1])
  qed
qed

lemma decodeBMP_alpha:
  assumes ok: "decodeBMP data entry = Ok img"
    and range: "0 \<le> x" "x < dibWidth data" "0 \<le> y" "y < dibHeight data"
  shows "cA (RGBAAt img x y) =
      (if andMaskApplied data \<and> andMaskBit data x y then 0 else xorAlpha data x y)"
proof -
  from decodeBMP_cases(1) [OF ok]
  consider "dibBitsPerPixel data = 32" | "dibBitsPerPixel data = 24"
    | "dibBitsPerPixel data = 8 \<or> dibBitsPerPixel data = 4 \<or> dibBitsPerPixel data = 1"
    unfolding supportedDepth_def by fast
  then show ?thesis
  proof cases
    case 1 then show ?thesis using decodeBMP_alpha32 [OF ok _ range] by simp
  next
    case 2 then show ?thesis using decodeBMP_alpha24 [OF ok _ range] by simp
  next
    case 3 then show ?thesis using decodeBMP_alpha_palette [OF ok _ range] by simp
  qed
qed

subsection \<open>Complete bitmaps are decoded\<close>

lemma alloc_bound:
  assumes w: "0 < w" and h: "0 < h" and cover: "w \<le> 8 * R" and RS: "R \<le> S"
    and fits: "(h - 1) * S + R \<le> L" and L: "L < 2 ^ 32"
  shows "4 * w * h \<le> maxAlloc"
proof -
  have "(h - 1) * R \<le> (h - 1) * S" using h RS by (intro mult_left_mono) simp_all
  then have hR: "h * R \<le> L" using fits by (simp add: algebra_simps)
  have "w * h \<le> (8 * R) * h" using cover h by (intro mult_right_mono) simp_all
  then have "w * h \<le> 8 * L" using hR by (simp add: algebra_simps)
  then show ?thesis using L by (simp add: maxAlloc_def mult.commute [of h w])
qed

lemma decodeBMP_succeeds32:
  assumes len: "40 \<le> length data" "length data < 2 ^ 32"
    and bpp: "dibBitsPerPixel data = 32"
    and dims: "0 < dibWidth data" "0 < dibHeight data"
    and complete: "xorDataComplete data"
  shows "\<exists>img. decodeBMP data entry = Ok img"
proof -
  let ?hs = "dibHeaderSize data" and ?w = "dibWidth data" and ?h = "dibHeight data"
  let ?rest = "drop (unat ?hs) data"
  let ?R = "?w * 4"
  let ?S = "?R + rowPadding ?R"
  have fits: "uint ?hs + (?h - 1) * ?S + ?R \<le> int (length data)"
    using complete by (simp only: layout32(3) [OF bpp])
  have R: "0 \<le> ?R" using dims by simp
  have pad: "0 \<le> rowPadding ?R" using rowPadding_bounds [OF R] by simp
  have S: "0 \<le> ?S" using R by (rule stride_nonneg)
  have hS: "0 \<le> (?h - 1) * ?S" "0 \<le> ?h * ?S" using S dims by simp_all
  have "uint ?hs \<le> int (length data)" using fits hS R by linarith
  then have hs: "unat ?hs \<le> length data" by (rule uint_le_length)
  have rl: "int (length ?rest) = int (length data) - uint ?hs" using hs by (rule length_drop_unat)
  have fits': "(?h - 1) * ?S + ?R \<le> int (length ?rest)" using fits rl by linarith
  have "(?h - 1) * ?S + ?R \<le> int (length data)" using fits' rl by simp
  then have alloc: "4 * ?w * ?h \<le> maxAlloc"
    using len(2) pad dims by (intro alloc_bound [OF dims, of ?R ?S "int (length data)"]) simp_all
  obtain t where t: "decodeXOR32 ?rest ?w ?h = Ok t"
    using decodeXOR32_total [OF dims alloc fits'] by blast
  obtain img where "applyANDMask ?rest ?w ?h (?h * ?S) t = Ok img"
    using applyANDMask_total [OF hS(2)] by blast
  then have "decodeBMP32 ?rest ?w ?h = Ok img" using t by (simp add: decodeBMP32_def)
  then show ?thesis using decodeBMP_dispatch(1) [OF len(1) bpp hs] by simp
qed

lemma decodeBMP_succeeds24:
  assumes len: "40 \<le> length data" "length data < 2 ^ 32"
    and bpp: "dibBitsPerPixel data = 24"
    and dims: "0 < dibWidth data" "0 < dibHeight data"
    and complete: "xorDataComplete data"
  shows "\<exists>img. decodeBMP data entry = Ok img"
proof -
  let ?hs = "dibHeaderSize data" and ?w = "dibWidth data" and ?h = "dibHeight data"
  let ?rest = "drop (unat ?hs) data"
  let ?R = "?w * 3"
  let ?S = "?R + rowPadding ?R"
  have fits: "uint ?hs + (?h - 1) * ?S + ?R \<le> int (length data)"
    using complete by (simp only: layout24(3) [OF bpp])
  have R: "0 \<le> ?R" using dims by simp
  have pad: "0 \<le> rowPadding ?R" using rowPadding_bounds [OF R] by simp
  have S: "0 \<le> ?S" using R by (rule stride_nonneg)
  have hS: "0 \<le> (?h - 1) * ?S" "0 \<le> ?h * ?S" using S dims by simp_all
  have "uint ?hs \<le> int (length data)" using fits hS R by linarith
  then have hs: "unat ?hs \<le> length data" by (rule uint_le_length)
  have rl: "int (length ?rest) = int (length data) - uint ?hs" using hs by (rule length_drop_unat)
  have fits': "(?h - 1) * ?S + ?R \<le> int (length ?rest)" using fits rl by linarith
  have "(?h - 1) * ?S + ?R \<le> int (length data)" using fits' rl by simp
  then have alloc: "4 * ?w * ?h \<le> maxAlloc"
    using len(2) pad dims by (intro alloc_bound [OF dims, of ?R ?S "int (length data)"]) simp_all
  obtain t where t: "decodeXOR24 ?rest ?w ?h = Ok t"
    using decodeXOR24_total [OF dims alloc fits'] by blast
  obtain img where "applyANDMask ?rest ?w ?h (?h * ?S) t = Ok img"
    using applyANDMask_total [OF hS(2)] by blast
  then have "decodeBMP24 ?rest ?w ?h = Ok img" using t by (simp add: decodeBMP24_def)
  then show ?thesis using decodeBMP_dispatch(2) [OF len(1) bpp hs] by simp
qed

lemma decodeBMP_succeeds8:
  assumes len: "40 \<le> length data" "length data < 2 ^ 32"
    and bpp: "dibBitsPerPixel data = 8"
    and dims: "0 < dibWidth data" "0 < dibHeight data"
    and complete: "xorDataComplete data"
  shows "\<exists>img. decodeBMP data entry = Ok img"
proof -
  let ?hs = "uint (dibHeaderSize data)" and ?w = "dibWidth data" and ?h = "dibHeight data"
  let ?R = "?w"
  let ?S = "?R + rowPadding ?R"
  have fits: "?hs + 1024 + (?h - 1) * ?S + ?R \<le> int (length data)"
    using complete by (simp only: layout8(3) [OF bpp])
  have R: "0 \<le> ?R" using dims by simp
  have pad: "0 \<le> rowPadding ?R" using rowPadding_bounds [OF R] by simp
  have S: "0 \<le> ?S" using R by (rule stride_nonneg)
  have hS: "0 \<le> (?h - 1) * ?S" "0 \<le> ?h * ?S" using S dims by simp_all
  have hs: "0 \<le> ?hs" by simp
  have "(?h - 1) * ?S + ?R \<le> int (length data)" using fits hs by linarith
  then have alloc: "4 * ?w * ?h \<le> maxAlloc"
    using len(2) pad dims by (intro alloc_bound [OF dims, of ?R ?S "int (length data)"]) simp_all
  obtain t where t: "decodeXOR8 data ?w ?h ?hs = Ok t"
    using decodeXOR8_total [OF dims alloc hs fits] by blast
  have "0 \<le> ?hs + 1024 + ?h * ?S" using hS(2) hs by linarith
  then obtain img where "applyANDMask data ?w ?h (?hs + 1024 + ?h * ?S) t = Ok img"
    using applyANDMask_total by blast
  then have "decodeBMP8 data ?w ?h ?hs = Ok img" using t by (simp add: decodeBMP8_def)
  then show ?thesis using decodeBMP_dispatch(3) [OF len(1) bpp] by simp
qed

lemma decodeBMP_succeeds4:
  assumes len: "40 \<le> length data" "length data < 2 ^ 32"
    and bpp: "dibBitsPerPixel data = 4"
    and dims: "0 < dibWidth data" "0 < dibHeight data"
    and complete: "xorDataComplete data"
  shows "\<exists>img. decodeBMP data entry = Ok img"
proof -
  let ?hs = "uint (dibHeaderSize data)" and ?w = "dibWidth data" and ?h = "dibHeight data"
  let ?R = "(?w + 1) sdiv 2"
  let ?S = "?R + rowPadding ?R"
  have fits: "?hs + 64 + (?h - 1) * ?S + ?R \<le> int (length data)"
    using complete by (simp only: layout4(3) [OF bpp])
  have Rdiv: "?R = (?w + 1) div 2" using dims by (simp add: sdiv_nonneg)
  have R: "0 \<le> ?R" using dims by (simp add: Rdiv)
  have cover: "?w \<le> 8 * ?R" unfolding Rdiv using dims by linarith
  have pad: "0 \<le> rowPadding ?R" using rowPadding_bounds [OF R] by simp
  have S: "0 \<le> ?S" using R by (rule stride_nonneg)
  have hS: "0 \<le> (?h - 1) * ?S" "0 \<le> ?h * ?S" using S dims by simp_all
  have hs: "0 \<le> ?hs" by simp
  have "(?h - 1) * ?S + ?R \<le> int (length data)" using fits hs by linarith
  then have alloc: "4 * ?w * ?h \<le> maxAlloc"
    using len(2) pad cover by (intro alloc_bound [OF dims, of ?R ?S "int (length data)"]) simp_all
  obtain t where t: "decodeXOR4 data ?w ?h ?hs = Ok t"
    using decodeXOR4_total [OF dims alloc hs fits] by blast
  have "0 \<le> ?hs + 64 + ?h * ?S" using hS(2) hs by linarith
  then obtain img where "applyANDMask data ?w ?h (?hs + 64 + ?h * ?S) t = Ok img"
    using applyANDMask_total by blast
  then have "decodeBMP4 data ?w ?h ?hs = Ok img" using t by (simp add: decodeBMP4_def)
  then show ?thesis using decodeBMP_dispatch(4) [OF len(1) bpp] by simp
qed

lemma decodeBMP_succeeds1:
  assumes len: "40 \<le> length data" "length data < 2 ^ 32"
    and bpp: "dibBitsPerPixel data = 1"
    and dims: "0 < dibWidth data" "0 < dibHeight data"
    and complete: "xorDataComplete data"
  shows "\<exists>img. decodeBMP data entry = Ok img"
proof -
  let ?hs = "uint (dibHeaderSize data)" and ?w = "dibWidth data" and ?h = "dibHeight data"
  let ?R = "(?w + 7) sdiv 8"
  let ?S = "?R + rowPadding ?R"
  have fits: "?hs + 8 + (?h - 1) * ?S + ?R \<le> int (length data)"
    using complete by (simp only: layout1(3) [OF bpp])
  have Rdiv: "?R = (?w + 7) div 8" using dims by (simp add: sdiv_nonneg)
  have R: "0 \<le> ?R" using dims by (simp add: Rdiv)
  have cover: "?w \<le> 8 * ?R" unfolding Rdiv using dims by linarith
  have pad: "0 \<le> rowPadding ?R" using rowPadding_bounds [OF R] by simp
  have S: "0 \<le> ?S" using R by (rule stride_nonneg)
  have hS: "0 \<le> (?h - 1) * ?S" "0 \<le> ?h * ?S" using S dims by simp_all
  have hs: "0 \<le> ?hs" by simp
  have "(?h - 1) * ?S + ?R \<le> int (length data)" using fits hs by linarith
  then have alloc: "4 * ?w * ?h \<le> maxAlloc"
    using len(2) pad cover by (intro alloc_bound [OF dims, of ?R ?S "int (length data)"]) simp_all
  obtain t where t: "decodeXOR1 data ?w ?h ?hs = Ok t"
    using decodeXOR1_total [OF dims alloc hs fits] by blast
  have "0 \<le> ?hs + 8 + ?h * ?S" using hS(2) hs by linarith
  then obtain img where "applyANDMask data ?w ?h (?hs + 8 + ?h * ?S) t = Ok img"
    using applyANDMask_total by blast
  then have "decodeBMP1 data ?w ?h ?hs = Ok img" using t by (simp add: decodeBMP1_def)
  then show ?thesis using decodeBMP_dispatch(5) [OF len(1) bpp] by simp
qed

lemma decodeBMP_succeeds:
  assumes "40 \<le> length data" "length data < 2 ^ 32"
    and "supportedDepth (dibBitsPerPixel data)"
    and "0 < dibWidth data" "0 < dibHeight data"
    and "xorDataComplete data"
  shows "\<exists>img. decodeBMP data entry = Ok img"
proof -
  from assms(3) consider "dibBitsPerPixel data = 32" | "dibBitsPerPixel data = 24"
    | "dibBitsPerPixel data = 8" | "dibBitsPerPixel data = 4" | "dibBitsPerPixel data = 1"
    unfolding supportedDepth_def by fast
  then show ?thesis
  proof cases
    case 1 then show ?thesis using decodeBMP_succeeds32 assms by blast
  next
    case 2 then show ?thesis using decodeBMP_succeeds24 assms by blast
  next
    case 3 then show ?thesis using decodeBMP_succeeds8 assms by blast
  next
    case 4 then show ?thesis using decodeBMP_succeeds4 assms by blast
  next
    case 5 then show ?thesis using decodeBMP_succeeds1 assms by blast
  qed
qed

subsection \<open>The bitmaps of the examples\<close>

lemma maskedBMP32_facts:
  "40 \<le> length maskedBMP32" "length maskedBMP32 < 2 ^ 32"
  "supportedDepth (dibBitsPerPixel maskedBMP32)"
  "dibWidth maskedBMP32 = 2" "dibHeight maskedBMP32 = 2"
  "xorDataComplete maskedBMP32" "andMaskApplied maskedBMP32"
  "andMaskBit maskedBMP32 0 0" "\<not> andMaskBit maskedBMP32 1 0"
  "\<not> andMaskBit maskedBMP32 0 1" "andMaskBit maskedBMP32 1 1"
  "xorAlpha maskedBMP32 0 0 = 0x40" "xorAlpha maskedBMP32 1 0 = 0xC0"
  "xorAlpha maskedBMP32 0 1 = 0x80" "xorAlpha maskedBMP32 1 1 = 0xFF"
  by (simp_all add: maskedBMP32_def maskedPixels_def fixture_eval)

lemma maskedBMP24_facts:
  "40 \<le> length maskedBMP24" "length maskedBMP24 < 2 ^ 32"
  "supportedDepth (dibBitsPerPixel maskedBMP24)"
  "dibWidth maskedBMP24 = 1" "dibHeight maskedBMP24 = 1"
  "xorDataComplete maskedBMP24" "andMaskApplied maskedBMP24"
  "andMaskBit maskedBMP24 0 0" "xorAlpha maskedBMP24 0 0 = 0xFF"
  by (simp_all add: maskedBMP24_def bareBMP24_def fixture_eval)

lemma maskedBMP8_facts:
  "40 \<le> length maskedBMP8" "length maskedBMP8 < 2 ^ 32"
  "supportedDepth (dibBitsPerPixel maskedBMP8)"
  "dibWidth maskedBMP8 = 2" "dibHeight maskedBMP8 = 1"
  "xorDataComplete maskedBMP8" "andMaskApplied maskedBMP8"
  "\<not> andMaskBit maskedBMP8 0 0" "andMaskBit maskedBMP8 1 0"
  "xorAlpha maskedBMP8 0 0 = 0xFF" "xorAlpha maskedBMP8 1 0 = 0xFF"
  by (simp_all add: maskedBMP8_def bareBMP8_def fixture_eval)

lemma maskedBMP4_facts:
  "40 \<le> length maskedBMP4" "length maskedBMP4 < 2 ^ 32"
  "supportedDepth (dibBitsPerPixel maskedBMP4)"
  "dibWidth maskedBMP4 = 2" "dibHeight maskedBMP4 = 1"
  "xorDataComplete maskedBMP4" "andMaskApplied maskedBMP4"
  "andMaskBit maskedBMP4 0 0" "\<not> andMaskBit maskedBMP4 1 0"
  "xorAlpha maskedBMP4 0 0 = 0xFF" "xorAlpha maskedBMP4 1 0 = 0xFF"
  by (simp_all add: maskedBMP4_def bareBMP4_def fixture_eval)

lemma maskedBMP1_facts:
  "40 \<le> length maskedBMP1" "length maskedBMP1 < 2 ^ 32"
  "supportedDepth (dibBitsPerPixel maskedBMP1)"
  "dibWidth maskedBMP1 = 1" "dibHeight maskedBMP1 = 1"
  "xorDataComplete maskedBMP1" "andMaskApplied maskedBMP1"
  "andMaskBit maskedBMP1 0 0" "xorAlpha maskedBMP1 0 0 = 0xFF"
  by (simp_all add: maskedBMP1_def bareBMP1_def fixture_eval)






subsection \<open>The directory in the bytes of the stream\<close>

lemma GetWidth_effectiveDim: "GetWidth e = effectiveDim (Width e)"
  by (simp add: GetWidth_def effectiveDim_def)

lemma GetHeight_effectiveDim: "GetHeight e = effectiveDim (Height e)"
  by (simp add: GetHeight_def effectiveDim_def)

lemma readEntries_nth:
  "readEntries buf n k = Ok es \<Longrightarrow> i < n \<Longrightarrow> es ! i = parseEntry (take 16 (drop (16 * i) buf))"
proof (induction n arbitrary: buf k es i)
  case 0
  then show ?case by simp
next
  case (Suc n)
  from Suc.prems(1) obtain es' where es': "readEntries (drop 16 buf) n (Suc k) = Ok es'"
    and es: "es = parseEntry (take 16 buf) # es'"
    by (auto simp: bindR_eq_Ok split: if_splits)
  show ?case
  proof (cases i)
    case 0
    then show ?thesis using es by simp
  next
    case (Suc i')
    then have "i' < n" using Suc.prems(2) by simp
    from Suc.IH [OF es' this] show ?thesis using es Suc by (simp add: add.commute)
  qed
qed

lemma unat_count:
  "unat (of_nat (unat (c0::byte) + 256 * unat (c1::byte)) :: uint16) = unat c0 + 256 * unat c1"
proof -
  have "unat c0 < 256" "unat c1 < 256"
    using unsigned_less [of c0, where 'a = nat] unsigned_less [of c1, where 'a = nat] by simp_all
  then have "unat c0 + 256 * unat c1 < 2 ^ 16" by simp
  then show ?thesis by (subst unat_of_nat) simp
qed

lemma header_bytes:
  "Reserved (parseHeader [0, 0, 1, 0, c0, c1]) = 0"
  "Type (parseHeader [0, 0, 1, 0, c0, c1]) = 1"
  "unat (Count (parseHeader [0, 0, 1, 0, c0, c1])) = unat c0 + 256 * unat c1"
proof -
  show "Reserved (parseHeader [0, 0, 1, 0, c0, c1]) = 0" "Type (parseHeader [0, 0, 1, 0, c0, c1]) = 1"
    by (simp_all add: parseHeader_def u16le_def)
  have "Count (parseHeader [0, 0, 1, 0, c0, c1]) = of_nat (unat c0 + 256 * unat c1)"
    by (simp add: parseHeader_def u16le_def)
  then show "unat (Count (parseHeader [0, 0, 1, 0, c0, c1])) = unat c0 + 256 * unat c1"
    by (simp only: unat_count)
qed

lemma parseEntry_dims:
  assumes "16 * i + 16 \<le> length directory"
  shows "GetWidth (parseEntry (take 16 (drop (16 * i) directory))) = effectiveDim (directory ! (16 * i))"
    and "GetHeight (parseEntry (take 16 (drop (16 * i) directory))) = effectiveDim (directory ! (16 * i + 1))"
  using assms by (simp_all add: GetWidth_effectiveDim GetHeight_effectiveDim parseEntry_def)

lemma DecodeConfig_bytes:
  assumes len: "length directory = 16 * (unat c0 + 256 * unat c1)"
    and pos: "0 < unat c0 + 256 * unat c1"
  shows "\<exists>i < unat c0 + 256 * unat c1.
      DecodeConfig ([0, 0, 1, 0, c0, c1] @ directory @ payload) =
        (Ok \<lparr>ConfigWidth = effectiveDim (directory ! (16 * i)),
             ConfigHeight = effectiveDim (directory ! (16 * i + 1)),
             ConfigCount = int (unat c0 + 256 * unat c1)\<rparr>, payload)
    \<and> (\<forall>j < unat c0 + 256 * unat c1. entryArea directory j \<le> entryArea directory i)
    \<and> (\<forall>j < i. entryArea directory j < entryArea directory i)"
proof -
  let ?hd = "[0, 0, 1, 0, c0, c1]"
  let ?data = "?hd @ directory"
  let ?n = "unat c0 + 256 * unat c1"
  have t6: "take 6 ?data = ?hd" by simp
  have d6: "drop 6 ?data = directory" by simp
  note hb = header_bytes [of c0 c1]
  have c: "Count (parseHeader ?hd) \<noteq> 0" using hb(3) pos by (metis unat_0 less_numeral_extra(3))
  have l: "length ?data = 6 + 16 * unat (Count (parseHeader (take 6 ?data)))"
    using len hb(3) by (simp only: t6) simp
  from DecodeConfig_spec [OF l, of payload] hb c
  obtain es i where rd: "readDirectory ?data = Ok (parseHeader ?hd, es)" and i: "i < length es"
    and dc: "DecodeConfig (?data @ payload) =
        (Ok \<lparr>ConfigWidth = GetWidth (es ! i), ConfigHeight = GetHeight (es ! i),
             ConfigCount = uint (Count (parseHeader ?hd))\<rparr>, payload)"
    and mx: "\<forall>j<length es. GetWidth (es ! j) * GetHeight (es ! j) \<le> GetWidth (es ! i) * GetHeight (es ! i)"
    and fst: "\<forall>j<i. GetWidth (es ! j) * GetHeight (es ! j) < GetWidth (es ! i) * GetHeight (es ! i)"
    by (simp only: t6) blast
  from rd have re: "readEntries directory ?n 0 = Ok es"
    using hb c by (simp only: readDirectory_def t6 d6 Let_def) (auto simp: bindR_eq_Ok split: if_splits)
  have n: "length es = ?n" using readEntries_length [OF re] .
  have nth: "es ! j = parseEntry (take 16 (drop (16 * j) directory))" if "j < ?n" for j
    using readEntries_nth [OF re that] .
  have dims: "GetWidth (es ! j) = effectiveDim (directory ! (16 * j))"
      "GetHeight (es ! j) = effectiveDim (directory ! (16 * j + 1))" if "j < ?n" for j
    using parseEntry_dims [of j directory] nth [OF that] that len by simp_all
  have cnt: "uint (Count (parseHeader ?hd)) = int ?n"
    using hb(3) by (metis uint_nat)
  have i': "i < ?n" using i n by simp
  have "DecodeConfig (?hd @ directory @ payload) =
        (Ok \<lparr>ConfigWidth = effectiveDim (directory ! (16 * i)),
             ConfigHeight = effectiveDim (directory ! (16 * i + 1)),
             ConfigCount = int ?n\<rparr>, payload)"
    using dc dims [OF i'] cnt by simp
  moreover have "\<forall>j < ?n. entryArea directory j \<le> entryArea directory i"
    using mx n dims i' by (simp add: entryArea_def)
  moreover have "\<forall>j < i. entryArea directory j < entryArea directory i"
    using fst dims i' by (simp add: entryArea_def)
  ultimately show ?thesis using i' by blast
qed

section \<open>Bounds safety of Decode\<close>

text \<open>
  C1. Decode and DecodeConfig never panic: every input leads to a value or to an error.
  DecodeConfig keeps this (\<open>DecodeConfig_never_panics\<close>); Decode does not: in
  \<open>oversizedHeaderICO\<close> the DIB header size (45) exceeds the payload (44 bytes) of a 32-bit
  entry, and \<^verbatim>\<open>data[headerSize:]\<close> in \<^verbatim>\<open>decodeBMP\<close> panics.
\<close>

theorem Decode_oversized_header_panics: "Decode png oversizedHeaderICO = Panic"
  by (simp add: oversizedHeaderICO_def input_defs decode_defs reader_defs dib_defs go_defs)

text \<open>
  C2. Decode checks \<open>offset < len\<close> and \<open>offset + size \<le> len\<close> without wrap-around before
  it slices, and a violation is an error naming the entry. The code adds in 32 bits: with
  offset 22 and size \<open>0xFFFFFFFF\<close> the sum wraps to 21, both checks pass on a 23-byte file,
  and \<^verbatim>\<open>data[22:21]\<close> panics.
\<close>

theorem Decode_wrapping_size_panics: "Decode png wrappingSizeICO = Panic"
  by (simp add: wrappingSizeICO_def input_defs decode_defs reader_defs go_defs)

section \<open>Pixels of a 32-bit bitmap\<close>

text \<open>
  C3, as the code has it. A successfully decoded 32-bit bitmap holds colours with
  premultiplied alpha, the pixel format of \<^verbatim>\<open>image.RGBA\<close>: the pixel \<open>(x, y)\<close> whose payload
  bytes are B, G, R, A reads back with the alpha A and with each of R, G, B scaled by it
  (\<open>premultiply c a\<close> is \<open>c * 257 * a div 255 div 256\<close>), unless the AND mask is applied and
  has the pixel's bit set, when it reads back as \<open>(0, 0, 0, 0)\<close>. Scaling by the alpha 255
  changes nothing, so that an opaque pixel reads back exactly as (R, G, B, 255).
\<close>

theorem decodeBMP32_premultiplied:
  assumes "decodeBMP32 data width height = Ok img"
    and "0 \<le> x" "x < width" "0 \<le> y" "y < height"
  shows "RGBAAt img x y =
      (if height * (width * 4 + rowPadding (width * 4)) + height * andTotalRowSize width
            \<le> int (length data)
          \<and> maskBit data width height (height * (width * 4 + rowPadding (width * 4))) x y
       then RGBA 0 0 0 0
       else RGBA (premultiply (nR (xorColor32 data width height x y))
                    (nA (xorColor32 data width height x y)))
                 (premultiply (nG (xorColor32 data width height x y))
                    (nA (xorColor32 data width height x y)))
                 (premultiply (nB (xorColor32 data width height x y))
                    (nA (xorColor32 data width height x y)))
                 (nA (xorColor32 data width height x y)))
    \<and> (\<forall>c. premultiply c 255 = c)"
  using decodeBMP32_pixels [OF assms] by (simp add: rgbaModel_def alpha_kept)

theorem decodeBMP32_premultiplied_witness:
  "\<exists>img. decodeBMP32 [0x00, 0x00, 0xFF, 0x80] 1 1 = Ok img
     \<and> RGBAAt img 0 0 = RGBA 0x80 0 0 0x80"
proof -
  have "\<exists>img. decodeBMP32 [0x00, 0x00, 0xFF, 0x80] 1 1 = Ok img"
    by (simp add: bmp32_defs image_defs go_defs)
  then obtain img where img: "decodeBMP32 [0x00, 0x00, 0xFF, 0x80] 1 1 = Ok img" ..
  have "RGBAAt img 0 0 = RGBA 0x80 0 0 0x80"
    using decodeBMP32_premultiplied [OF img, of 0 0]
    by (simp add: xorColor32_def rowPadding_def andTotalRowSize_def premultiply_def go_defs)
  with img show ?thesis by blast
qed

text \<open>
  C3 as stated fails: the one pixel of \<open>halfTransparentICO\<close> has the payload bytes
  B = 0, G = 0, R = 255, A = 128 and reads back as (128, 0, 0, 128), not (255, 0, 0, 128).
\<close>

theorem straight_alpha_counterexample:
  "pixelAt (Decode rejectPNG halfTransparentICO) 0 0 0 = Some (RGBA 128 0 0 128)
   \<and> pixelAt (Decode rejectPNG halfTransparentICO) 0 0 0 \<noteq> Some (RGBA 255 0 0 128)"
  by (simp add: pixelAt_def halfTransparentICO_def rejectPNG_def input_defs decode_defs
      reader_defs dib_defs go_defs bmp32_defs image_defs)

section \<open>The AND mask\<close>

text \<open>
  C4. Let \<^verbatim>\<open>decodeBMP\<close> have decoded the payload \<open>data\<close> into \<open>img\<close>, at any of the five bit
  depths, and let the AND mask be applied: its rows end inside the payload. Then a pixel
  \<open>(x, y)\<close> of the bitmap whose mask bit is 1 has the alpha 0 in \<open>img\<close>, whatever alpha the
  XOR mask gave it, and a pixel whose mask bit is 0 has the alpha that the XOR mask gave
  it; in both cases the alpha is not above that of the XOR mask.
\<close>

theorem decodeBMP_and_mask_alpha:
  assumes "decodeBMP data entry = Ok img" and "andMaskApplied data"
    and "0 \<le> x" "x < dibWidth data" "0 \<le> y" "y < dibHeight data"
  shows "cA (RGBAAt img x y) = (if andMaskBit data x y then 0 else xorAlpha data x y)
    \<and> cA (RGBAAt img x y) \<le> xorAlpha data x y"
  using decodeBMP_alpha [OF assms(1) assms(3-6)] assms(2) by simp

theorem decodeBMP_and_mask_alpha_witness:
  "(\<exists>img. decodeBMP maskedBMP32 (entryOfSize 2 2) = Ok img \<and> andMaskApplied maskedBMP32
      \<and> andMaskBit maskedBMP32 0 0 \<and> xorAlpha maskedBMP32 0 0 = 0x40
      \<and> cA (RGBAAt img 0 0) = 0
      \<and> \<not> andMaskBit maskedBMP32 1 0 \<and> xorAlpha maskedBMP32 1 0 = 0xC0
      \<and> cA (RGBAAt img 1 0) = 0xC0
      \<and> \<not> andMaskBit maskedBMP32 0 1 \<and> cA (RGBAAt img 0 1) = 0x80
      \<and> andMaskBit maskedBMP32 1 1 \<and> cA (RGBAAt img 1 1) = 0)
   \<and> (\<exists>img. decodeBMP maskedBMP24 (entryOfSize 1 1) = Ok img \<and> andMaskApplied maskedBMP24
      \<and> andMaskBit maskedBMP24 0 0 \<and> cA (RGBAAt img 0 0) = 0)
   \<and> (\<exists>img. decodeBMP maskedBMP8 (entryOfSize 2 1) = Ok img \<and> andMaskApplied maskedBMP8
      \<and> \<not> andMaskBit maskedBMP8 0 0 \<and> cA (RGBAAt img 0 0) = 0xFF
      \<and> andMaskBit maskedBMP8 1 0 \<and> cA (RGBAAt img 1 0) = 0)
   \<and> (\<exists>img. decodeBMP maskedBMP4 (entryOfSize 2 1) = Ok img \<and> andMaskApplied maskedBMP4
      \<and> andMaskBit maskedBMP4 0 0 \<and> cA (RGBAAt img 0 0) = 0
      \<and> \<not> andMaskBit maskedBMP4 1 0 \<and> cA (RGBAAt img 1 0) = 0xFF)
   \<and> (\<exists>img. decodeBMP maskedBMP1 (entryOfSize 1 1) = Ok img \<and> andMaskApplied maskedBMP1
      \<and> andMaskBit maskedBMP1 0 0 \<and> cA (RGBAAt img 0 0) = 0)"
proof -
  note a = maskedBMP32_facts and b = maskedBMP24_facts and c = maskedBMP8_facts
    and d = maskedBMP4_facts and e = maskedBMP1_facts
  obtain i32 where i32: "decodeBMP maskedBMP32 (entryOfSize 2 2) = Ok i32"
    using decodeBMP_succeeds [OF a(1-3) _ _ a(6)] a(4,5) by auto
  have p32: "cA (RGBAAt i32 0 0) = 0" "cA (RGBAAt i32 1 0) = 0xC0"
      "cA (RGBAAt i32 0 1) = 0x80" "cA (RGBAAt i32 1 1) = 0"
    using decodeBMP_and_mask_alpha [OF i32 a(7), of 0 0]
      decodeBMP_and_mask_alpha [OF i32 a(7), of 1 0]
      decodeBMP_and_mask_alpha [OF i32 a(7), of 0 1]
      decodeBMP_and_mask_alpha [OF i32 a(7), of 1 1] a
    by simp_all
  obtain i24 where i24: "decodeBMP maskedBMP24 (entryOfSize 1 1) = Ok i24"
    using decodeBMP_succeeds [OF b(1-3) _ _ b(6)] b(4,5) by auto
  have p24: "cA (RGBAAt i24 0 0) = 0"
    using decodeBMP_and_mask_alpha [OF i24 b(7), of 0 0] b by simp
  obtain i8 where i8: "decodeBMP maskedBMP8 (entryOfSize 2 1) = Ok i8"
    using decodeBMP_succeeds [OF c(1-3) _ _ c(6)] c(4,5) by auto
  have p8: "cA (RGBAAt i8 0 0) = 0xFF" "cA (RGBAAt i8 1 0) = 0"
    using decodeBMP_and_mask_alpha [OF i8 c(7), of 0 0]
      decodeBMP_and_mask_alpha [OF i8 c(7), of 1 0] c
    by simp_all
  obtain i4 where i4: "decodeBMP maskedBMP4 (entryOfSize 2 1) = Ok i4"
    using decodeBMP_succeeds [OF d(1-3) _ _ d(6)] d(4,5) by auto
  have p4: "cA (RGBAAt i4 0 0) = 0" "cA (RGBAAt i4 1 0) = 0xFF"
    using decodeBMP_and_mask_alpha [OF i4 d(7), of 0 0]
      decodeBMP_and_mask_alpha [OF i4 d(7), of 1 0] d
    by simp_all
  obtain i1 where i1: "decodeBMP maskedBMP1 (entryOfSize 1 1) = Ok i1"
    using decodeBMP_succeeds [OF e(1-3) _ _ e(6)] e(4,5) by auto
  have p1: "cA (RGBAAt i1 0 0) = 0"
    using decodeBMP_and_mask_alpha [OF i1 e(7), of 0 0] e by simp
  show ?thesis
    using i32 p32 a i24 p24 b i8 p8 c i4 p4 d i1 p1 e by simp
qed




section \<open>Truncated XOR data\<close>

text \<open>
  C6. When a pixel of the XOR mask lies beyond the payload, the entry's decoder is to fail
  with an error that reports truncated data, and \<^verbatim>\<open>Decode\<close> is to return that error. The
  XOR loops make this check, but \<^verbatim>\<open>Decode\<close> panics before they are reached on two files
  with such a pixel. In \<open>oversizedHeaderICO\<close>, the file of C1, the header size 45 puts the
  four bytes of the only pixel at the offsets 45 to 48 of a payload of 44 bytes, and
  \<^verbatim>\<open>data[headerSize:]\<close> in \<^verbatim>\<open>decodeBMP\<close> panics. In \<open>hugeBitmapICO\<close> the DIB header
  declares 2147483647 x 32769 pixels for a payload of 44 bytes, and \<^verbatim>\<open>image.NewRGBA\<close>
  panics in \<^verbatim>\<open>make\<close>, as the buffer would exceed the allocation limit.
\<close>

theorem Decode_truncated_xor_panics:
  "xorPixelBeyond (drop 22 oversizedHeaderICO) 0 0
   \<and> Decode png oversizedHeaderICO = Panic
   \<and> drop 22 hugeBitmapICO = hugeBitmap
   \<and> xorPixelBeyond hugeBitmap 0 0
   \<and> Decode png hugeBitmapICO = Panic"
proof -
  have "drop 22 oversizedHeaderICO = minimalBMP 0x2D 0x20 [0x00, 0x00, 0xFF, 0xFF]"
    by (simp add: oversizedHeaderICO_def input_defs)
  moreover have "xorPixelBeyond (minimalBMP 0x2D 0x20 [0x00, 0x00, 0xFF, 0xFF]) 0 0"
    by (simp add: xorPixelBeyond_def fixture_eval)
  moreover have "Decode png oversizedHeaderICO = Panic"
    by (simp add: oversizedHeaderICO_def input_defs decode_defs reader_defs dib_defs go_defs)
  moreover have "drop 22 hugeBitmapICO = hugeBitmap"
    by (simp add: hugeBitmapICO_def input_defs)
  moreover have "xorPixelBeyond hugeBitmap 0 0"
    by (simp add: xorPixelBeyond_def hugeBitmap_def fixture_eval)
  moreover have "Decode png hugeBitmapICO = Panic"
    by (simp add: hugeBitmapICO_def hugeBitmap_def input_defs decode_defs reader_defs dib_defs
        go_defs bmp32_defs image_defs)
  ultimately show ?thesis by simp
qed

section \<open>The directory entry and the bitmap\<close>

text \<open>
  C10. \<^verbatim>\<open>decodeBMP\<close> does not read the directory entry it is given: two entries give the same
  result on the same payload, and the bounds of a decoded image are those of the DIB header
  (its width and half its height), whatever the entry says.
\<close>

theorem decodeBMP_ignores_entry:
  "decodeBMP data e1 = decodeBMP data e2
   \<and> (\<forall>img. decodeBMP data e1 = Ok img \<longrightarrow>
         Rect img = image_Rect 0 0 (dibWidth data) (dibHeight data))"
  using decodeBMP_Rect by (simp add: decodeBMP_def)

theorem decodeBMP_ignores_entry_witness:
  "decodeBMP (minimalBMP 0x28 0x20 [0x00, 0x00, 0xFF, 0xFF]) (entryOfSize 16 16)
     = decodeBMP (minimalBMP 0x28 0x20 [0x00, 0x00, 0xFF, 0xFF]) (entryOfSize 1 1)
   \<and> (\<exists>img. decodeBMP (minimalBMP 0x28 0x20 [0x00, 0x00, 0xFF, 0xFF]) (entryOfSize 16 16) = Ok img
         \<and> Rect img = image_Rect 0 0 1 1 \<and> Dx (Rect img) = 1 \<and> GetWidth (entryOfSize 16 16) = 16)"
proof -
  let ?bmp = "minimalBMP 0x28 0x20 [0x00, 0x00, 0xFF, 0xFF]"
  note c = decodeBMP_ignores_entry [of ?bmp "entryOfSize 16 16" "entryOfSize 1 1"]
  have "\<exists>img. decodeBMP ?bmp (entryOfSize 16 16) = Ok img"
    by (simp add: input_defs decodeBMP_def reader_defs dib_defs go_defs bmp32_defs image_defs)
  then obtain img where img: "decodeBMP ?bmp (entryOfSize 16 16) = Ok img" ..
  have dib: "dibWidth ?bmp = 1" "dibHeight ?bmp = 1"
    by (simp_all add: input_defs dib_defs reader_defs go_defs)
  have "Rect img = image_Rect 0 0 1 1" using c img dib by simp
  moreover from this have "Dx (Rect img) = 1" by (simp add: image_Rect_def Dx_def)
  moreover have "GetWidth (entryOfSize 16 16) = 16" by (simp add: GetWidth_def entryOfSize_def)
  ultimately show ?thesis using c img by blast
qed

section \<open>The selection functions\<close>

text \<open>
  C7. On a file whose images match its entries, as Decode builds it (\<open>Decode_lengths\<close>),
  \<^verbatim>\<open>GetBestImage\<close> returns nil exactly when there is no entry, and otherwise the image at the
  first index whose entry has the largest product of effective width and height.
\<close>

theorem GetBestImage_first_largest:
  assumes "length (Entries ico) = length (Images ico)"
  shows "(GetBestImage ico = Ok None) = (Entries ico = [])
    \<and> (Entries ico \<noteq> [] \<longrightarrow>
        (\<exists>i<length (Entries ico). GetBestImage ico = Ok (Some (Images ico ! i))
           \<and> (\<forall>j<length (Entries ico).
                 GetWidth (Entries ico ! j) * GetHeight (Entries ico ! j)
                 \<le> GetWidth (Entries ico ! i) * GetHeight (Entries ico ! i))
           \<and> (\<forall>j<i. GetWidth (Entries ico ! j) * GetHeight (Entries ico ! j)
                 < GetWidth (Entries ico ! i) * GetHeight (Entries ico ! i))))"
  using GetBestImage_spec [OF assms] .

theorem GetBestImage_first_largest_witness:
  "length (Entries threeSizes) = length (Images threeSizes)
   \<and> GetBestImage threeSizes \<noteq> Ok None
   \<and> GetBestImage threeSizes = Ok (Some (PNGImage 1))"
proof -
  have len: "length (Entries threeSizes) = length (Images threeSizes)"
    by (simp add: threeSizes_def)
  have "Entries threeSizes \<noteq> []" by (simp add: threeSizes_def)
  with GetBestImage_first_largest [OF len] have "GetBestImage threeSizes \<noteq> Ok None" by simp
  moreover have "GetBestImage threeSizes = Ok (Some (PNGImage 1))"
    by (simp add: GetBestImage_def threeSizes_def entryOfSize_def GetWidth_def GetHeight_def
        go_defs)
  ultimately show ?thesis using len by simp
qed

text \<open>
  C8. On a file with at least one image, \<^verbatim>\<open>GetImageBySize\<close> is to return, for every target,
  the image at the first index whose entry has the least squared distance
  \<open>(GetWidth - w)^2 + (GetHeight - h)^2\<close> from the target; its comment promises the image
  with the dimensions closest to the target. It returns an image for every target
  (\<open>GetImageBySize_some\<close>), and the closest one when no squared distance reaches \<open>2^63\<close>
  (\<open>GetImageBySize_spec\<close>). But \<^verbatim>\<open>scoreSizeMatch\<close> computes in \<^verbatim>\<open>int\<close>, which wraps
  around: for the widths 1 and 2 (height 1) and the target \<open>(3037000501, 1)\<close> the second
  entry is the closer one, but the square of the first difference, \<open>3037000500^2\<close>, exceeds
  \<open>2^63 - 1\<close> and wraps to a negative score, and the first image is returned.
\<close>

theorem GetImageBySize_overflow_returns_farther:
  "GetImageBySize twoWidths 3037000501 1 = Ok (Some (Images twoWidths ! 0))
   \<and> sqDist (Entries twoWidths ! 1) 3037000501 1 < sqDist (Entries twoWidths ! 0) 3037000501 1
   \<and> Images twoWidths ! 0 \<noteq> Images twoWidths ! 1"
proof -
  have s: "scoreSizeMatch (entryOfSize 1 1) 3037000501 1 = - 9223372036709301616"
    "scoreSizeMatch (entryOfSize 2 1) 3037000501 1 = 9223372030926249001"
    by (simp_all add: scoreSizeMatch_def int64_def entryOfSize_def GetWidth_def GetHeight_def
        Let_def)
  have "GetImageBySize twoWidths 3037000501 1 = Ok (Some (Images twoWidths ! 0))"
    by (simp add: GetImageBySize_def twoWidths_def s index_def)
  moreover have "sqDist (Entries twoWidths ! 1) 3037000501 1
      < sqDist (Entries twoWidths ! 0) 3037000501 1"
    by (simp add: sqDist_def twoWidths_def entryOfSize_def GetWidth_def GetHeight_def)
  moreover have "Images twoWidths ! 0 \<noteq> Images twoWidths ! 1"
    by (simp add: twoWidths_def)
  ultimately show ?thesis by blast
qed

section \<open>The metadata path\<close>

text \<open>
  C9. Let a stream consist of the six header bytes \<open>00 00 01 00 c0 c1\<close> (reserved 0, type
  1 and the count \<open>c0 + 256 * c1\<close>, little-endian), of \<open>count\<close> directory entries of 16 bytes
  each, and of any payload, also none. If the count is above 0, \<^verbatim>\<open>DecodeConfig\<close> succeeds;
  it reports the count of the header and the effective width and height of the first
  entry with the largest product of effective width and height, which are given by the
  first two bytes of the entry; and it leaves the whole payload unread in the reader.
\<close>

theorem DecodeConfig_directory_only:
  assumes "length directory = 16 * (unat c0 + 256 * unat c1)"
    and "0 < unat c0 + 256 * unat c1"
  shows "\<exists>i < unat c0 + 256 * unat c1.
      DecodeConfig ([0, 0, 1, 0, c0, c1] @ directory @ payload) =
        (Ok \<lparr>ConfigWidth = effectiveDim (directory ! (16 * i)),
             ConfigHeight = effectiveDim (directory ! (16 * i + 1)),
             ConfigCount = int (unat c0 + 256 * unat c1)\<rparr>, payload)
    \<and> (\<forall>j < unat c0 + 256 * unat c1. entryArea directory j \<le> entryArea directory i)
    \<and> (\<forall>j < i. entryArea directory j < entryArea directory i)"
  using DecodeConfig_bytes [OF assms] .

theorem DecodeConfig_directory_only_witness:
  "length threeEntries = 16 * (unat (3 :: byte) + 256 * unat (0 :: byte))
   \<and> entryArea threeEntries 0 = 256 \<and> entryArea threeEntries 1 = 65536
   \<and> entryArea threeEntries 2 = 1024
   \<and> DecodeConfig ([0, 0, 1, 0, 3, 0] @ threeEntries @ [])
        = (Ok \<lparr>ConfigWidth = 256, ConfigHeight = 256, ConfigCount = 3\<rparr>, [])
   \<and> DecodeConfig ([0, 0, 1, 0, 3, 0] @ threeEntries @ [0x28, 0, 0, 0])
        = (Ok \<lparr>ConfigWidth = 256, ConfigHeight = 256, ConfigCount = 3\<rparr>, [0x28, 0, 0, 0])"
proof -
  have len: "length threeEntries = 16 * (unat (3 :: byte) + 256 * unat (0 :: byte))"
    by (simp add: threeEntries_def)
  have pos: "0 < unat (3 :: byte) + 256 * unat (0 :: byte)" by simp
  have a: "entryArea threeEntries 0 = 256" "entryArea threeEntries 1 = 65536"
    "entryArea threeEntries 2 = 1024"
    by (simp_all add: entryArea_def threeEntries_def effectiveDim_def)
  have dims: "effectiveDim (threeEntries ! (16 * 1)) = 256"
    "effectiveDim (threeEntries ! (16 * 1 + 1)) = 256"
    by (simp_all add: threeEntries_def effectiveDim_def)
  have "DecodeConfig ([0, 0, 1, 0, 3, 0] @ threeEntries @ payload)
      = (Ok \<lparr>ConfigWidth = 256, ConfigHeight = 256, ConfigCount = 3\<rparr>, payload)" for payload
  proof -
    from DecodeConfig_directory_only [OF len pos, of payload]
    obtain i where i: "i < 3"
      and dc: "DecodeConfig ([0, 0, 1, 0, 3, 0] @ threeEntries @ payload) =
        (Ok \<lparr>ConfigWidth = effectiveDim (threeEntries ! (16 * i)),
             ConfigHeight = effectiveDim (threeEntries ! (16 * i + 1)),
             ConfigCount = 3\<rparr>, payload)"
      and mx: "\<forall>j < 3. entryArea threeEntries j \<le> entryArea threeEntries i"
      by auto
    from i consider "i = 0" | "i = 1" | "i = 2" by linarith
    then have "i = 1"
    proof cases
      case 1
      then show ?thesis using mx a by (auto dest: spec [of _ 1])
    next
      case 2
      then show ?thesis .
    next
      case 3
      then show ?thesis using mx a by (auto dest: spec [of _ 1])
    qed
    then show ?thesis using dc dims by simp
  qed
  from this [of "[]"] this [of "[0x28, 0, 0, 0]"] show ?thesis using len a by simp
qed

end
